theory Spec2Isabelle
  imports Main "HOL-Library.Word"
begin

unbundle bit_operations_syntax

section \<open>Common types\<close>

text \<open>
  The library targets 64-bit UNIX systems: \<open>size_t\<close>, \<open>uintptr_t\<close>, \<open>uint64_t\<close> and
  pointers are 64-bit words, occupancy bytes are 8-bit words. Operations return
  \<open>(error + 'a) option\<close> when they contain a loop that the source does not bound:
  \<open>None\<close> is a run that never returns, \<open>Some (Inl e)\<close> a run that traps
  (undefined behaviour made explicit), \<open>Some (Inr x)\<close> a normal return of \<open>x\<close>.
\<close>

type_synonym u8 = "8 word"
type_synonym u64 = "64 word"

datatype error = DivByZero | OutOfBounds | NullDeref | AssertFailed | BadAddress

section \<open>The hash map \<open>Table<K, V>\<close>\<close>

text \<open>
  The typed helper \<open>Allocator::alloc<T>(n)\<close> returns a block of \<open>n\<close> elements whose
  contents nobody has written. The container code only sees those contents, so an
  allocator is modelled by what its blocks hold: \<open>alloc_K a n i\<close> is element \<open>i\<close> of the
  block returned for \<open>n\<close> keys, and likewise for values and occupancy bytes. The model
  covers allocators whose blocks are separate and never null, as those of the arena are
  (it traps where it cannot map memory). It does not cover the scratch allocator once its
  cursor wraps, whose blocks then overlap live ones, nor its null result for a request
  larger than the buffer.
\<close>

record ('k, 'v) Allocator =
  alloc_K :: "nat \<Rightarrow> nat \<Rightarrow> 'k"
  alloc_V :: "nat \<Rightarrow> nat \<Rightarrow> 'v"
  alloc_Meta :: "nat \<Rightarrow> nat \<Rightarrow> u8"

text \<open>
  \<open>struct Table\<close>. An array is a pointer in the source; here it is the function from
  index to element, valid below \<open>capacity\<close>. The field \<open>values\<close> is called \<open>values_t\<close>.
  \<open>count\<close> and \<open>capacity\<close> are natural numbers: they count slots of arrays that exist
  in memory, so that \<open>count * 100\<close> and \<open>(capacity + 1) * 3\<close> stay far below \<open>2 ^ 64\<close>.
\<close>

record ('k, 'v) Table =
  keys :: "nat \<Rightarrow> 'k"
  values_t :: "nat \<Rightarrow> 'v"
  meta :: "nat \<Rightarrow> u8"
  count :: nat
  capacity :: nat
  allocator :: "('k, 'v) Allocator"

definition COMT_TAB_META_OCCUPIED :: u8 where
  "COMT_TAB_META_OCCUPIED = 1"

definition COMT_TAB_IS_OCCUPIED :: "u8 \<Rightarrow> bool" where
  "COMT_TAB_IS_OCCUPIED m = (m AND COMT_TAB_META_OCCUPIED \<noteq> 0)"

definition COMT_TAB_IS_FREE :: "u8 \<Rightarrow> bool" where
  "COMT_TAB_IS_FREE m = (\<not> COMT_TAB_IS_OCCUPIED m)"

definition COMT_TABLE_GROWTH_FACTOR :: "nat \<Rightarrow> nat" where
  "COMT_TABLE_GROWTH_FACTOR x = (x + 1) * 3"

text \<open>
  \<open>load_percentage\<close> divides two doubles and truncates to \<open>uint8_t\<close>. Both operands are
  integers below \<open>2 ^ 53\<close>, so the rounded quotient has the same integer part as the exact
  one, and the result is the integer quotient (at most 100 when \<open>count \<le> capacity\<close>).
\<close>

definition load_percentage :: "('k, 'v) Table \<Rightarrow> nat" where
  "load_percentage t = (count t * 100) div capacity t"

text \<open>\<open>Table::alloc\<close> takes three blocks from the allocator and writes none of them.\<close>

definition Table_alloc :: "('k, 'v) Allocator \<Rightarrow> nat \<Rightarrow> ('k, 'v) Table" where
  "Table_alloc a cap =
     \<lparr> keys = alloc_K a cap, values_t = alloc_V a cap, meta = alloc_Meta a cap,
       count = 0, capacity = cap, allocator = a \<rparr>"

text \<open>The \<open>while (true)\<close> probe loop of \<open>Table::put\<close>, from slot \<open>idx\<close>.\<close>

partial_function (option) put_loop ::
  "('k, 'v) Table \<Rightarrow> 'k \<Rightarrow> 'v \<Rightarrow> nat \<Rightarrow> (error + ('k, 'v) Table) option" where
  "put_loop t key value idx =
     (if \<not> idx < capacity t then Some (Inl OutOfBounds)
      else if COMT_TAB_IS_FREE (meta t idx) then
        Some (Inr (t\<lparr> meta := (meta t)(idx := meta t idx OR COMT_TAB_META_OCCUPIED),
                      values_t := (values_t t)(idx := value),
                      keys := (keys t)(idx := key),
                      count := count t + 1 \<rparr>))
      else if keys t idx = key then
        Some (Inr (t\<lparr> values_t := (values_t t)(idx := value), keys := (keys t)(idx := key) \<rparr>))
      else put_loop t key value ((idx + 1) mod capacity t))"

declare put_loop.simps [code]

text \<open>
  \<open>Table::put\<close>. The hash \<open>Hash<K>::hash\<close> is the parameter \<open>H\<close>. The rehash calls
  \<open>put\<close> on the new table for every occupied slot; \<open>reinsert\<close> is that \<open>for\<close> loop over
  the slot indices. The first argument bounds the nesting depth of \<open>put\<close> calls: a call
  that would nest deeper returns \<open>None\<close>. A zero capacity makes the load computation and
  \<open>% capacity\<close> divide by zero.
\<close>

fun put :: "nat \<Rightarrow> ('k \<Rightarrow> u64) \<Rightarrow> ('k, 'v) Table \<Rightarrow> 'k \<Rightarrow> 'v \<Rightarrow> (error + ('k, 'v) Table) option"
  and reinsert :: "nat \<Rightarrow> ('k \<Rightarrow> u64) \<Rightarrow> ('k, 'v) Table \<Rightarrow> nat list \<Rightarrow> ('k, 'v) Table \<Rightarrow>
                   (error + ('k, 'v) Table) option" where
  "put 0 H t key value = None"
| "put (Suc d) H t key value =
     (if capacity t = 0 then Some (Inl DivByZero)
      else if load_percentage t \<ge> 70 then
        (case reinsert d H t [0..<capacity t]
                (Table_alloc (allocator t) (COMT_TABLE_GROWTH_FACTOR (capacity t))) of
           Some (Inr new_table) \<Rightarrow>
             put_loop new_table key value (unat (H key) mod capacity new_table)
         | other \<Rightarrow> other)
      else put_loop t key value (unat (H key) mod capacity t))"
| "reinsert d H t [] new_table = Some (Inr new_table)"
| "reinsert d H t (i # is) new_table =
     (if COMT_TAB_IS_OCCUPIED (meta t i) then
        (case put d H new_table (keys t i) (values_t t i) of
           Some (Inr new_table') \<Rightarrow> reinsert d H t is new_table'
         | other \<Rightarrow> other)
      else reinsert d H t is new_table)"

text \<open>
  \<open>Table::get\<close>: the \<open>do ... while (idx != initial_idx)\<close> loop. The result \<open>Some v\<close> is
  \<open>true\<close> with \<open>*out = v\<close>; \<open>None\<close> is \<open>false\<close>, \<open>*out\<close> untouched.
\<close>

partial_function (option) get_loop ::
  "('k, 'v) Table \<Rightarrow> 'k \<Rightarrow> nat \<Rightarrow> nat \<Rightarrow> (error + 'v option) option" where
  "get_loop t key idx initial_idx =
     (if \<not> idx < capacity t then Some (Inl OutOfBounds)
      else if COMT_TAB_IS_OCCUPIED (meta t idx) \<and> keys t idx = key then
        Some (Inr (Some (values_t t idx)))
      else if (idx + 1) mod capacity t \<noteq> initial_idx then
        get_loop t key ((idx + 1) mod capacity t) initial_idx
      else Some (Inr None))"

declare get_loop.simps [code]

definition get :: "('k \<Rightarrow> u64) \<Rightarrow> ('k, 'v) Table \<Rightarrow> 'k \<Rightarrow> (error + 'v option) option" where
  "get H t key =
     (if capacity t = 0 then Some (Inl DivByZero)
      else get_loop t key (unat (H key) mod capacity t) (unat (H key) mod capacity t))"

partial_function (option) has_loop ::
  "('k, 'v) Table \<Rightarrow> 'k \<Rightarrow> nat \<Rightarrow> nat \<Rightarrow> (error + bool) option" where
  "has_loop t key idx initial_idx =
     (if \<not> idx < capacity t then Some (Inl OutOfBounds)
      else if COMT_TAB_IS_OCCUPIED (meta t idx) \<and> keys t idx = key then
        Some (Inr True)
      else if (idx + 1) mod capacity t \<noteq> initial_idx then
        has_loop t key ((idx + 1) mod capacity t) initial_idx
      else Some (Inr False))"

declare has_loop.simps [code]

definition has :: "('k \<Rightarrow> u64) \<Rightarrow> ('k, 'v) Table \<Rightarrow> 'k \<Rightarrow> (error + bool) option" where
  "has H t key =
     (if capacity t = 0 then Some (Inl DivByZero)
      else has_loop t key (unat (H key) mod capacity t) (unat (H key) mod capacity t))"

text \<open>A caller that puts a list of pairs, first to last, stopping at a failed call.\<close>

fun put_all ::
  "nat \<Rightarrow> ('k \<Rightarrow> u64) \<Rightarrow> ('k, 'v) Table \<Rightarrow> ('k \<times> 'v) list \<Rightarrow> (error + ('k, 'v) Table) option" where
  "put_all d H t [] = Some (Inr t)"
| "put_all d H t ((key, value) # kvs) =
     (case put d H t key value of
        Some (Inr t') \<Rightarrow> put_all d H t' kvs
      | other \<Rightarrow> other)"

text \<open>The number of those calls that found the load-factor gate open on entry.\<close>

fun rehashes :: "nat \<Rightarrow> ('k \<Rightarrow> u64) \<Rightarrow> ('k, 'v) Table \<Rightarrow> ('k \<times> 'v) list \<Rightarrow> nat" where
  "rehashes d H t [] = 0"
| "rehashes d H t ((key, value) # kvs) =
     (if load_percentage t \<ge> 70 then 1 else 0) +
     (case put d H t key value of
        Some (Inr t') \<Rightarrow> rehashes d H t' kvs
      | other \<Rightarrow> 0)"

text \<open>\<open>Hash<size_t>::hash\<close>, the identity.\<close>

definition Hash_size_t :: "u64 \<Rightarrow> u64" where
  "Hash_size_t val = val"

text \<open>
  Two allocators for the examples: one hands out zero-filled blocks, as fresh pages of
  the operating system are; one hands out blocks left behind by an earlier use, as an
  arena does after \<open>reset()\<close> and the scratch allocator after its cursor wrapped.
\<close>

definition zero_allocator :: "(u64, u64) Allocator" where
  "zero_allocator = \<lparr> alloc_K = (\<lambda>n i. 0), alloc_V = (\<lambda>n i. 0), alloc_Meta = (\<lambda>n i. 0) \<rparr>"

text \<open>
  \<open>stale_allocator n0 i0 k0\<close>: the blocks for \<open>n0\<close> elements were used by an earlier
  table, which left slot \<open>i0\<close> marked occupied with key \<open>k0\<close> and value 99; every
  other byte handed out is zero.
\<close>

definition stale_allocator :: "nat \<Rightarrow> nat \<Rightarrow> u64 \<Rightarrow> (u64, u64) Allocator" where
  "stale_allocator n0 i0 k0 =
     \<lparr> alloc_K = (\<lambda>n i. if n = n0 \<and> i = i0 then k0 else 0),
       alloc_V = (\<lambda>n i. if n = n0 \<and> i = i0 then 99 else 0),
       alloc_Meta = (\<lambda>n i. if n = n0 \<and> i = i0 then 1 else 0) \<rparr>"

definition dirty_allocator :: "(u64, u64) Allocator" where
  "dirty_allocator = \<lparr> alloc_K = (\<lambda>n i. 5), alloc_V = (\<lambda>n i. 50), alloc_Meta = (\<lambda>n i. 1) \<rparr>"

text \<open>Keys 0 to 32, each with value \<open>key * 2\<close>.\<close>

definition scenario_puts :: "(u64 \<times> u64) list" where
  "scenario_puts = map (\<lambda>i. (of_nat i, of_nat (i * 2))) [0..<33]"

subsection \<open>Specification vocabulary for the hash map\<close>

text \<open>
  \<open>slot c h j\<close> is the \<open>j\<close>-th slot of the probe sequence that starts at \<open>h\<close>;
  \<open>home\<close> is the start slot of a key; \<open>holds t k i\<close> says slot \<open>i\<close> is occupied by key
  \<open>k\<close>; \<open>entry t k v\<close> says the table maps \<open>k\<close> to \<open>v\<close>.
\<close>

definition slot :: "nat \<Rightarrow> nat \<Rightarrow> nat \<Rightarrow> nat" where
  "slot c h j = (h + j) mod c"

definition home :: "('k \<Rightarrow> u64) \<Rightarrow> ('k, 'v) Table \<Rightarrow> 'k \<Rightarrow> nat" where
  "home H t k = unat (H k) mod capacity t"

definition holds :: "('k, 'v) Table \<Rightarrow> 'k \<Rightarrow> nat \<Rightarrow> bool" where
  "holds t k i = (i < capacity t \<and> COMT_TAB_IS_OCCUPIED (meta t i) \<and> keys t i = k)"

definition entry :: "('k, 'v) Table \<Rightarrow> 'k \<Rightarrow> 'v \<Rightarrow> bool" where
  "entry t k v = (\<exists>i. holds t k i \<and> values_t t i = v)"

definition keyset :: "('k, 'v) Table \<Rightarrow> 'k set" where
  "keyset t = {k. \<exists>v. entry t k v}"

text \<open>
  The invariant of linear probing without deletion: on the probe path of a stored key,
  every slot before the one that holds it is occupied by another key.
\<close>

definition probe_ok :: "('k \<Rightarrow> u64) \<Rightarrow> ('k, 'v) Table \<Rightarrow> bool" where
  "probe_ok H t =
     (\<forall>k j. j < capacity t \<and> holds t k (slot (capacity t) (home H t k) j) \<longrightarrow>
        (\<forall>j'<j. COMT_TAB_IS_OCCUPIED (meta t (slot (capacity t) (home H t k) j')) \<and>
                 keys t (slot (capacity t) (home H t k) j') \<noteq> k))"

definition table_inv :: "('k \<Rightarrow> u64) \<Rightarrow> ('k, 'v) Table \<Rightarrow> bool" where
  "table_inv H t =
     (0 < capacity t \<and>
      count t = card {i. i < capacity t \<and> COMT_TAB_IS_OCCUPIED (meta t i)} \<and>
      probe_ok H t)"

text \<open>An allocator whose blocks of occupancy bytes come with bit 0 clear.\<close>

definition zeroing :: "('k, 'v) Allocator \<Rightarrow> bool" where
  "zeroing a = (\<forall>n i. i < n \<longrightarrow> COMT_TAB_IS_FREE (alloc_Meta a n i))"

section \<open>The hash set \<open>Set<T>\<close>\<close>

text \<open>
  \<open>struct Set\<close>, its fields suffixed with \<open>_s\<close>. The blocks of a set come from the same
  allocator interface; the element block is the allocator's value block.
\<close>

record 't Set =
  allocator_s :: "(unit, 't) Allocator"
  capacity_s :: nat
  count_s :: nat
  values_s :: "nat \<Rightarrow> 't"
  meta_s :: "nat \<Rightarrow> u8"

definition Set_load_percentage :: "'t Set \<Rightarrow> nat" where
  "Set_load_percentage s = (100 * count_s s) div capacity_s s"

definition Set_alloc :: "(unit, 't) Allocator \<Rightarrow> nat \<Rightarrow> 't Set" where
  "Set_alloc a cap =
     \<lparr> allocator_s = a, capacity_s = cap, count_s = 0,
       values_s = alloc_V a cap, meta_s = alloc_Meta a cap \<rparr>"

text \<open>
  The probe loop of \<open>Set::put\<close>. The variable \<open>hash\<close> is the slot index; reading
  \<open>meta[hash]\<close> at or beyond \<open>capacity\<close> is outside the array.
\<close>

partial_function (option) Set_put_loop ::
  "'t Set \<Rightarrow> 't \<Rightarrow> nat \<Rightarrow> (error + 't Set) option" where
  "Set_put_loop s elem hash =
     (if \<not> hash < capacity_s s then Some (Inl OutOfBounds)
      else if COMT_TAB_IS_FREE (meta_s s hash) then
        Some (Inr (s\<lparr> meta_s := (meta_s s)(hash := meta_s s hash OR COMT_TAB_META_OCCUPIED),
                      values_s := (values_s s)(hash := elem),
                      count_s := count_s s + 1 \<rparr>))
      else if values_s s hash = elem then
        Some (Inr (s\<lparr> values_s := (values_s s)(hash := elem) \<rparr>))
      else Set_put_loop s elem ((hash + 1) mod capacity_s s))"

declare Set_put_loop.simps [code]

text \<open>\<open>Set::put\<close>: the loop starts at \<open>Hash<T>::hash(elem)\<close> itself.\<close>

fun Set_put :: "nat \<Rightarrow> ('t \<Rightarrow> u64) \<Rightarrow> 't Set \<Rightarrow> 't \<Rightarrow> (error + 't Set) option"
  and Set_reinsert :: "nat \<Rightarrow> ('t \<Rightarrow> u64) \<Rightarrow> 't Set \<Rightarrow> nat list \<Rightarrow> 't Set \<Rightarrow>
                       (error + 't Set) option" where
  "Set_put 0 H s elem = None"
| "Set_put (Suc d) H s elem =
     (if capacity_s s = 0 then Some (Inl DivByZero)
      else if Set_load_percentage s \<ge> 70 then
        (case Set_reinsert d H s [0..<capacity_s s]
                (Set_alloc (allocator_s s) (COMT_TABLE_GROWTH_FACTOR (capacity_s s))) of
           Some (Inr new_set) \<Rightarrow> Set_put_loop new_set elem (unat (H elem))
         | other \<Rightarrow> other)
      else Set_put_loop s elem (unat (H elem)))"
| "Set_reinsert d H s [] new_set = Some (Inr new_set)"
| "Set_reinsert d H s (i # is) new_set =
     (if COMT_TAB_IS_FREE (meta_s s i) then Set_reinsert d H s is new_set
      else
        (case Set_put d H new_set (values_s s i) of
           Some (Inr new_set') \<Rightarrow> Set_reinsert d H s is new_set'
         | other \<Rightarrow> other))"

text \<open>\<open>Set::has\<close>: \<open>idx\<close> starts at the hash, and the loop ends when \<open>idx\<close> is the hash again.\<close>

partial_function (option) Set_has_loop ::
  "'t Set \<Rightarrow> 't \<Rightarrow> nat \<Rightarrow> nat \<Rightarrow> (error + bool) option" where
  "Set_has_loop s elem idx hash =
     (if \<not> idx < capacity_s s then Some (Inl OutOfBounds)
      else if COMT_TAB_IS_OCCUPIED (meta_s s idx) \<and> values_s s idx = elem then
        Some (Inr True)
      else if (idx + 1) mod capacity_s s \<noteq> hash then
        Set_has_loop s elem ((idx + 1) mod capacity_s s) hash
      else Some (Inr False))"

declare Set_has_loop.simps [code]

definition Set_has :: "('t \<Rightarrow> u64) \<Rightarrow> 't Set \<Rightarrow> 't \<Rightarrow> (error + bool) option" where
  "Set_has H s elem = Set_has_loop s elem (unat (H elem)) (unat (H elem))"

text \<open>The allocator of zero-filled blocks, for sets of \<open>size_t\<close>.\<close>

definition zero_allocator_s :: "(unit, u64) Allocator" where
  "zero_allocator_s = \<lparr> alloc_K = (\<lambda>n i. ()), alloc_V = (\<lambda>n i. 0), alloc_Meta = (\<lambda>n i. 0) \<rparr>"

section \<open>Allocators\<close>

text \<open>
  Sizes, offsets and addresses of the allocators are 64-bit words, with the wrap-around
  of the source's \<open>size_t\<close> and \<open>uintptr_t\<close> arithmetic. The null pointer is 0.
  \<open>sizeof(void*)\<close> is 8 and \<open>sizeof(Region)\<close> is 32 (four 8-byte fields).
\<close>

definition COMT_PAGE_SIZE :: u64 where
  "COMT_PAGE_SIZE = 4096"

definition sizeof_ptr :: u64 where
  "sizeof_ptr = 8"

definition sizeof_Region :: u64 where
  "sizeof_Region = 32"

definition align_to :: "u64 \<Rightarrow> u64 \<Rightarrow> u64" where
  "align_to sz align = sz + ((align - (sz AND (align - 1))) AND (align - 1))"

text \<open>\<open>comt::max\<close> of two arguments: \<open>x > xs_max ? x : xs_max\<close>.\<close>

definition comt_max :: "u64 \<Rightarrow> u64 \<Rightarrow> u64" where
  "comt_max x xs_max = (if x > xs_max then x else xs_max)"

subsection \<open>The operating system's primitives\<close>

text \<open>
  The three macros call \<open>mmap\<close>, \<open>munmap\<close> and \<open>sbrk\<close>, which are not part of the
  library. The operating system is modelled by the address its next mapping gets, the
  program break, and the list of \<open>munmap\<close> calls made so far. A mapping that the system
  refuses is the address \<open>-1\<close> (\<open>MAP_FAILED\<close>): \<open>mmap\<close> refuses a length of 0, and it
  refuses every request in the state whose next address is \<open>-1\<close> (no memory left).
  \<open>sbrk\<close> returns the old break, \<open>-1\<close> when it fails.
\<close>

record OS =
  mmap_next :: u64
  brk :: u64
  unmapped :: "(u64 \<times> u64) list"

definition COMT_ALLOC_PAGE :: "u64 \<Rightarrow> OS \<Rightarrow> u64 \<times> OS" where
  "COMT_ALLOC_PAGE sz s =
     (if sz = 0 then (- 1, s)
      else (mmap_next s, s\<lparr> mmap_next := mmap_next s + sz \<rparr>))"

definition COMT_ALLOC_SMOL :: "u64 \<Rightarrow> OS \<Rightarrow> u64 \<times> OS" where
  "COMT_ALLOC_SMOL sz s = (brk s, s\<lparr> brk := brk s + sz \<rparr>)"

definition COMT_DEALLOC_PAGE :: "u64 \<Rightarrow> u64 \<Rightarrow> OS \<Rightarrow> OS" where
  "COMT_DEALLOC_PAGE page sz s = s\<lparr> unmapped := unmapped s @ [(page, sz)] \<rparr>"

subsection \<open>\<open>FixedBufferAllocator\<close>\<close>

record FixedBufferAllocator =
  buffer :: u64
  buffer_size :: u64
  buffer_off :: u64

definition DEFAULT_PAGE_COUNT :: u64 where
  "DEFAULT_PAGE_COUNT = 5"

text \<open>
  \<open>FixedBufferAllocator::raw_alloc\<close> returns the pointer, with the allocator and the
  operating system as the call left them.
\<close>

definition FixedBufferAllocator_raw_alloc ::
  "FixedBufferAllocator \<Rightarrow> OS \<Rightarrow> u64 \<Rightarrow> u64 \<times> FixedBufferAllocator \<times> OS" where
  "FixedBufferAllocator_raw_alloc a s sz0 =
     (let sz = align_to sz0 sizeof_ptr;
          (a1, s1) =
            (if buffer a = 0 then
               (let bs = align_to (comt_max sz (COMT_PAGE_SIZE * DEFAULT_PAGE_COUNT)) COMT_PAGE_SIZE;
                    (p, s') = COMT_ALLOC_PAGE bs s
                in (a\<lparr> buffer_size := bs, buffer := p, buffer_off := 0 \<rparr>, s'))
             else (a, s))
      in if sz > buffer_size a1 then (0, a1, s1)
         else if buffer_size a1 - buffer_off a1 < sz then
           (buffer a1, a1\<lparr> buffer_off := sz \<rparr>, s1)
         else (buffer a1 + buffer_off a1, a1\<lparr> buffer_off := buffer_off a1 + sz \<rparr>, s1))"

definition FixedBufferAllocator_raw_dealloc ::
  "FixedBufferAllocator \<Rightarrow> u64 \<Rightarrow> u64 \<Rightarrow> FixedBufferAllocator" where
  "FixedBufferAllocator_raw_dealloc a ptr sz =
     (if ptr = buffer a + buffer_off a then a\<lparr> buffer_off := buffer_off a - sz \<rparr> else a)"

subsection \<open>\<open>ArenaAllocator\<close>\<close>

text \<open>
  \<open>struct Region\<close>; the fields \<open>next\<close> and \<open>size\<close> are called \<open>next_r\<close> and \<open>size_r\<close>.
  The state of an arena is its two chain heads, the \<open>Region\<close> objects in memory (by
  address), and the operating system.
\<close>

record Region =
  next_r :: u64
  data :: u64
  size_r :: u64
  off :: u64

record ArenaAllocator =
  head :: u64
  region_pool :: u64
  regions :: "u64 \<Rightarrow> Region"
  os :: OS

text \<open>\<open>_init_region\<close>: maps the data block, asserts that the mapping succeeded.\<close>

definition init_region :: "ArenaAllocator \<Rightarrow> u64 \<Rightarrow> u64 \<Rightarrow> error + ArenaAllocator" where
  "init_region a region sz =
     (let (p, s') = COMT_ALLOC_PAGE sz (os a)
      in if p = - 1 then Inl AssertFailed
         else Inr (a\<lparr> regions := (regions a)(region :=
                          \<lparr> next_r = 0, data = p, size_r = sz, off = 0 \<rparr>),
                      os := s' \<rparr>))"

text \<open>
  The code of \<open>alloc_region\<close> after its loop: a new metadata page. The results of
  \<open>sbrk\<close> and \<open>mmap\<close> are not tested; the stores through \<open>current_region\<close> and,
  in \<open>_init_region\<close>, through the page address fault when that address is \<open>-1\<close>.
\<close>

definition alloc_region_new_page ::
  "ArenaAllocator \<Rightarrow> u64 \<Rightarrow> error + (u64 \<times> ArenaAllocator)" where
  "alloc_region_new_page a region_size =
     (let (current_region, s1) = COMT_ALLOC_SMOL sizeof_Region (os a)
      in if current_region = - 1 then Inl BadAddress
         else
           (let (page, s2) = COMT_ALLOC_PAGE COMT_PAGE_SIZE s1;
                a1 = a\<lparr> regions := (regions a)(current_region :=
                          \<lparr> next_r = region_pool a, data = page, size_r = COMT_PAGE_SIZE,
                            off = align_to sizeof_Region sizeof_ptr \<rparr>),
                        region_pool := current_region, os := s2 \<rparr>
            in if page = - 1 then Inl BadAddress
               else
                 (case init_region a1 page region_size of
                    Inl e \<Rightarrow> Inl e
                  | Inr a2 \<Rightarrow> Inr (page, a2))))"

text \<open>
  The \<open>while (current_region)\<close> loop of \<open>alloc_region\<close>. Its last statement is
  \<open>head = head->next\<close>, on the member \<open>head\<close>; \<open>current_region\<close> is never advanced.
\<close>

partial_function (option) alloc_region_loop ::
  "ArenaAllocator \<Rightarrow> u64 \<Rightarrow> u64 \<Rightarrow> (error + (u64 \<times> ArenaAllocator)) option" where
  "alloc_region_loop a current_region region_size =
     (if current_region \<noteq> 0 then
        (if size_r (regions a current_region) - off (regions a current_region) \<ge> sizeof_Region then
           (let region = data (regions a current_region) + off (regions a current_region)
            in case init_region a region region_size of
                 Inl e \<Rightarrow> Some (Inl e)
               | Inr a1 \<Rightarrow>
                   Some (Inr (region,
                     a1\<lparr> regions := (regions a1)(current_region :=
                            (regions a1 current_region)
                              \<lparr> off := off (regions a1 current_region) +
                                        align_to sizeof_Region sizeof_ptr \<rparr>) \<rparr>)))
         else if head a = 0 then Some (Inl NullDeref)
         else alloc_region_loop (a\<lparr> head := next_r (regions a (head a)) \<rparr>)
                current_region region_size)
      else Some (alloc_region_new_page a region_size))"

declare alloc_region_loop.simps [code]

definition alloc_region ::
  "ArenaAllocator \<Rightarrow> u64 \<Rightarrow> (error + (u64 \<times> ArenaAllocator)) option" where
  "alloc_region a region_size =
     alloc_region_loop a (region_pool a) (align_to region_size COMT_PAGE_SIZE)"

text \<open>The code of \<open>raw_alloc\<close> after its loop, with \<open>sz\<close> the aligned size.\<close>

definition raw_alloc_new ::
  "ArenaAllocator \<Rightarrow> u64 \<Rightarrow> (error + (u64 \<times> ArenaAllocator)) option" where
  "raw_alloc_new a sz =
     (case alloc_region a (align_to sz COMT_PAGE_SIZE) of
        Some (Inr (h, a1)) \<Rightarrow>
          (let a2 = a1\<lparr> regions := (regions a1)(h := (regions a1 h)\<lparr> next_r := head a1 \<rparr>),
                        head := h \<rparr>;
               ptr = data (regions a2 h) + off (regions a2 h)
           in Some (Inr (ptr,
                a2\<lparr> regions := (regions a2)(h := (regions a2 h)
                                   \<lparr> off := off (regions a2 h) + sz \<rparr>) \<rparr>)))
      | Some (Inl e) \<Rightarrow> Some (Inl e)
      | None \<Rightarrow> None)"

text \<open>The \<open>while (head)\<close> loop of \<open>raw_alloc\<close>, on its local variable \<open>head\<close>.\<close>

partial_function (option) raw_alloc_loop ::
  "ArenaAllocator \<Rightarrow> u64 \<Rightarrow> u64 \<Rightarrow> (error + (u64 \<times> ArenaAllocator)) option" where
  "raw_alloc_loop a hd_ptr sz =
     (if hd_ptr \<noteq> 0 then
        (if size_r (regions a hd_ptr) - off (regions a hd_ptr) \<ge> sz then
           Some (Inr (data (regions a hd_ptr) + off (regions a hd_ptr),
             a\<lparr> regions := (regions a)(hd_ptr :=
                    (regions a hd_ptr)\<lparr> off := off (regions a hd_ptr) + sz \<rparr>) \<rparr>))
         else raw_alloc_loop a (next_r (regions a hd_ptr)) sz)
      else raw_alloc_new a sz)"

declare raw_alloc_loop.simps [code]

definition ArenaAllocator_raw_alloc ::
  "ArenaAllocator \<Rightarrow> u64 \<Rightarrow> (error + (u64 \<times> ArenaAllocator)) option" where
  "ArenaAllocator_raw_alloc a sz0 = raw_alloc_loop a (head a) (align_to sz0 sizeof_ptr)"

text \<open>
  \<open>ArenaAllocator::free\<close>: the loop runs over \<open>r\<close> and releases \<open>head->data\<close> with
  \<open>head->size\<close>.
\<close>

partial_function (option) free_loop ::
  "ArenaAllocator \<Rightarrow> u64 \<Rightarrow> (error + ArenaAllocator) option" where
  "free_loop a r =
     (if r \<noteq> 0 then
        (if head a = 0 then Some (Inl NullDeref)
         else free_loop
                (a\<lparr> os := COMT_DEALLOC_PAGE (data (regions a (head a)))
                              (size_r (regions a (head a))) (os a) \<rparr>)
                (next_r (regions a r)))
      else Some (Inr a))"

declare free_loop.simps [code]

definition ArenaAllocator_free :: "ArenaAllocator \<Rightarrow> (error + ArenaAllocator) option" where
  "ArenaAllocator_free a = free_loop a (head a)"

subsection \<open>Specification vocabulary and example states for the allocators\<close>

text \<open>\<open>chain m p rs\<close>: following \<open>next\<close> from \<open>p\<close> visits exactly the addresses \<open>rs\<close>.\<close>

fun chain :: "(u64 \<Rightarrow> Region) \<Rightarrow> u64 \<Rightarrow> u64 list \<Rightarrow> bool" where
  "chain m p [] = (p = 0)"
| "chain m p (r # rs) = (p \<noteq> 0 \<and> p = r \<and> chain m (next_r (m r)) rs)"

text \<open>The bytes left in a region, and whether a request of \<open>n\<close> bytes fits.\<close>

definition remaining :: "(u64 \<Rightarrow> Region) \<Rightarrow> u64 \<Rightarrow> nat" where
  "remaining m r = unat (size_r (m r)) - unat (off (m r))"

definition fits :: "(u64 \<Rightarrow> Region) \<Rightarrow> u64 \<Rightarrow> u64 \<Rightarrow> bool" where
  "fits m sz r = (unat sz \<le> remaining m r)"

text \<open>The descriptor of a region with given fields.\<close>

definition mk_region :: "u64 \<Rightarrow> u64 \<Rightarrow> u64 \<Rightarrow> u64 \<Rightarrow> Region" where
  "mk_region n d sz f = \<lparr> next_r = n, data = d, size_r = sz, off = f \<rparr>"

text \<open>
  Example states. \<open>fba_example\<close> is a scratch allocator with its five-page buffer and
  nothing allocated. \<open>arena_one\<close> is an arena that holds one empty region of 4096
  bytes, whose descriptor is the first in its metadata page; \<open>arena_two\<close> holds a second
  region of 8192 bytes in front of it; \<open>arena_pool_full\<close> is \<open>arena_one\<close> with the
  metadata page used up, as after 128 descriptors.
\<close>

definition os0 :: OS where
  "os0 = \<lparr> mmap_next = 0x40000, brk = 0x600020, unmapped = [] \<rparr>"

definition fba_example :: FixedBufferAllocator where
  "fba_example = \<lparr> buffer = 0x10000, buffer_size = 20480, buffer_off = 0 \<rparr>"

definition arena_one :: ArenaAllocator where
  "arena_one =
     \<lparr> head = 0x20000, region_pool = 0x600000,
       regions = (\<lambda>p. mk_region 0 0 0 0)
         (0x600000 := mk_region 0 0x20000 4096 32,
          0x20000 := mk_region 0 0x30000 4096 0),
       os = os0 \<rparr>"

definition arena_two :: ArenaAllocator where
  "arena_two =
     \<lparr> head = 0x20020, region_pool = 0x600000,
       regions = (\<lambda>p. mk_region 0 0 0 0)
         (0x600000 := mk_region 0 0x20000 4096 64,
          0x20000 := mk_region 0 0x30000 4096 0,
          0x20020 := mk_region 0x20000 0x40000 8192 5000),
       os = os0\<lparr> mmap_next := 0x42000 \<rparr> \<rparr>"

definition arena_pool_full :: ArenaAllocator where
  "arena_pool_full =
     \<lparr> head = 0x20000, region_pool = 0x600000,
       regions = (\<lambda>p. mk_region 0 0 0 0)
         (0x600000 := mk_region 0 0x20000 4096 4096,
          0x20000 := mk_region 0 0x30000 4096 0),
       os = os0 \<rparr>"

text \<open>
  The state in which \<open>alloc_region\<close> can hand out a descriptor: the metadata pool is
  empty, or its first page has room for a descriptor and the descriptor carved there is
  not the page's own; and the operating system grants the mappings asked of it.
\<close>

definition pool_has_room :: "ArenaAllocator \<Rightarrow> bool" where
  "pool_has_room a =
     (region_pool a = 0 \<or>
      (sizeof_Region \<le> size_r (regions a (region_pool a)) - off (regions a (region_pool a)) \<and>
       data (regions a (region_pool a)) + off (regions a (region_pool a)) \<noteq> region_pool a))"

definition os_grants :: "ArenaAllocator \<Rightarrow> bool" where
  "os_grants a =
     (mmap_next (os a) \<noteq> - 1 \<and> mmap_next (os a) + COMT_PAGE_SIZE \<noteq> - 1 \<and>
      brk (os a) \<noteq> - 1)"

text \<open>The address at which \<open>alloc_region\<close> places the next descriptor in such a state.\<close>

definition next_descriptor :: "ArenaAllocator \<Rightarrow> u64" where
  "next_descriptor a =
     (if region_pool a = 0 then mmap_next (os a)
      else data (regions a (region_pool a)) + off (regions a (region_pool a)))"

definition offs_ok :: "(u64 \<Rightarrow> Region) \<Rightarrow> u64 list \<Rightarrow> bool" where
  "offs_ok m rs = list_all (\<lambda>r. off (m r) \<le> size_r (m r)) rs"

section \<open>Correctness of the hash map\<close>

subsection \<open>Probe sequences\<close>

lemma slot_less: "0 < c \<Longrightarrow> slot c h j < c"
  by (simp add: slot_def)

lemma slot_Suc: "(slot c h j + 1) mod c = slot c h (Suc j)"
  by (simp add: slot_def mod_Suc_eq)

lemma slot_Suc': "Suc (slot c h j) mod c = slot c h (Suc j)"
  by (simp add: slot_def mod_Suc_eq)

lemma slot_0: "h < c \<Longrightarrow> slot c h 0 = h"
  by (simp add: slot_def)

lemma slot_inj_le:
  assumes "j \<le> j'" "j' < c" "slot c h j = slot c h j'"
  shows "j = j'"
proof -
  have "c dvd (h + j') - (h + j)"
    using assms(1,3) mod_eq_dvd_iff_nat [of "h + j" "h + j'" c] by (simp add: slot_def)
  then have "c dvd j' - j" by simp
  moreover have "j' - j < c" using assms(2) by simp
  ultimately have "j' - j = 0" by (meson dvd_imp_le not_less zero_less_iff_neq_zero)
  then show ?thesis using assms(1) by simp
qed

lemma slot_inj:
  assumes "j < c" "j' < c" "slot c h j = slot c h j'"
  shows "j = j'"
proof (cases "j \<le> j'")
  case True
  then show ?thesis using assms slot_inj_le by blast
next
  case False
  then have "j' \<le> j" by simp
  then show ?thesis using assms slot_inj_le [of j' j c h] by simp
qed

lemma slot_surj:
  assumes "i < c" "h < c"
  shows "\<exists>j<c. slot c h j = i"
proof (cases "h \<le> i")
  case True
  then have "slot c h (i - h) = i" using assms by (simp add: slot_def)
  moreover have "i - h < c" using assms by simp
  ultimately show ?thesis by blast
next
  case False
  then have "slot c h (c + i - h) = i" using assms by (simp add: slot_def)
  moreover have "c + i - h < c" using assms False by simp
  ultimately show ?thesis by blast
qed

lemma slot_c: "h < c \<Longrightarrow> slot c h c = h"
  by (simp add: slot_def)

lemma slot_neq_start: "h < c \<Longrightarrow> 0 < j \<Longrightarrow> j < c \<Longrightarrow> slot c h j \<noteq> h"
  using slot_inj [of j c 0 h] by (auto simp: slot_0)


lemma get_loop_miss:
  assumes "h < capacity t" "j < capacity t"
    and "\<forall>j'. j \<le> j' \<and> j' < capacity t \<longrightarrow> \<not> holds t k (slot (capacity t) h j')"
  shows "get_loop t k (slot (capacity t) h j) h = Some (Inr None)"
  using assms
proof (induction "capacity t - j" arbitrary: j)
  case 0
  then show ?case by simp
next
  case (Suc n)
  let ?c = "capacity t"
  have c: "0 < ?c" using Suc.prems by simp
  have lt: "slot ?c h j < ?c" using c by (rule slot_less)
  have nh: "\<not> holds t k (slot ?c h j)" using Suc.prems by simp
  then have nm: "\<not> (COMT_TAB_IS_OCCUPIED (meta t (slot ?c h j)) \<and> keys t (slot ?c h j) = k)"
    using lt by (simp add: holds_def)
  show ?case
  proof (cases "Suc j = ?c")
    case True
    then have "(slot ?c h j + 1) mod ?c = h"
      using slot_c [of h ?c] Suc.prems(1) by (simp add: slot_Suc slot_Suc')
    then show ?thesis
      using lt nm by (subst get_loop.simps) simp
  next
    case False
    then have sj: "Suc j < ?c" using Suc.prems(2) by simp
    then have ne: "(slot ?c h j + 1) mod ?c \<noteq> h"
      using slot_neq_start [of h ?c "Suc j"] Suc.prems(1) by (simp add: slot_Suc slot_Suc')
    have "get_loop t k (slot ?c h (Suc j)) h = Some (Inr None)"
      using Suc.hyps(1) [of "Suc j"] Suc.hyps(2) Suc.prems sj by simp
    then show ?thesis
      using lt nm ne by (subst get_loop.simps) (auto simp: slot_Suc slot_Suc')
  qed
qed

lemma get_loop_hit:
  assumes "h < capacity t" "j \<le> m" "m < capacity t"
    and "holds t k (slot (capacity t) h m)"
    and "\<forall>j'. j \<le> j' \<and> j' < m \<longrightarrow> \<not> holds t k (slot (capacity t) h j')"
  shows "get_loop t k (slot (capacity t) h j) h = Some (Inr (Some (values_t t (slot (capacity t) h m))))"
  using assms
proof (induction "m - j" arbitrary: j)
  case 0
  then have "j = m" by simp
  then show ?case
    using "0.prems"(4) by (subst get_loop.simps) (simp add: holds_def)
next
  case (Suc n)
  let ?c = "capacity t"
  have jm: "j < m" using Suc.hyps(2) by simp
  have c: "0 < ?c" using Suc.prems by simp
  have lt: "slot ?c h j < ?c" using c by (rule slot_less)
  have nh: "\<not> holds t k (slot ?c h j)" using Suc.prems(5) jm by simp
  then have nm: "\<not> (COMT_TAB_IS_OCCUPIED (meta t (slot ?c h j)) \<and> keys t (slot ?c h j) = k)"
    using lt by (simp add: holds_def)
  have sj: "Suc j < ?c" using jm Suc.prems(3) by simp
  then have ne: "(slot ?c h j + 1) mod ?c \<noteq> h"
    using slot_neq_start [of h ?c "Suc j"] Suc.prems(1) by (simp add: slot_Suc slot_Suc')
  have "get_loop t k (slot ?c h (Suc j)) h = Some (Inr (Some (values_t t (slot ?c h m))))"
    using Suc.hyps(1) [of "Suc j"] Suc.hyps(2) Suc.prems jm by simp
  then show ?case
    using lt nm ne by (subst get_loop.simps) (auto simp: slot_Suc slot_Suc')
qed

lemma has_loop_miss:
  assumes "h < capacity t" "j < capacity t"
    and "\<forall>j'. j \<le> j' \<and> j' < capacity t \<longrightarrow> \<not> holds t k (slot (capacity t) h j')"
  shows "has_loop t k (slot (capacity t) h j) h = Some (Inr False)"
  using assms
proof (induction "capacity t - j" arbitrary: j)
  case 0
  then show ?case by simp
next
  case (Suc n)
  let ?c = "capacity t"
  have c: "0 < ?c" using Suc.prems by simp
  have lt: "slot ?c h j < ?c" using c by (rule slot_less)
  have nh: "\<not> holds t k (slot ?c h j)" using Suc.prems by simp
  then have nm: "\<not> (COMT_TAB_IS_OCCUPIED (meta t (slot ?c h j)) \<and> keys t (slot ?c h j) = k)"
    using lt by (simp add: holds_def)
  show ?case
  proof (cases "Suc j = ?c")
    case True
    then have "(slot ?c h j + 1) mod ?c = h"
      using slot_c [of h ?c] Suc.prems(1) by (simp add: slot_Suc slot_Suc')
    then show ?thesis
      using lt nm by (subst has_loop.simps) simp
  next
    case False
    then have sj: "Suc j < ?c" using Suc.prems(2) by simp
    then have ne: "(slot ?c h j + 1) mod ?c \<noteq> h"
      using slot_neq_start [of h ?c "Suc j"] Suc.prems(1) by (simp add: slot_Suc slot_Suc')
    have "has_loop t k (slot ?c h (Suc j)) h = Some (Inr False)"
      using Suc.hyps(1) [of "Suc j"] Suc.hyps(2) Suc.prems sj by simp
    then show ?thesis
      using lt nm ne by (subst has_loop.simps) (auto simp: slot_Suc slot_Suc')
  qed
qed

lemma has_loop_hit:
  assumes "h < capacity t" "j \<le> m" "m < capacity t"
    and "holds t k (slot (capacity t) h m)"
    and "\<forall>j'. j \<le> j' \<and> j' < m \<longrightarrow> \<not> holds t k (slot (capacity t) h j')"
  shows "has_loop t k (slot (capacity t) h j) h = Some (Inr True)"
  using assms
proof (induction "m - j" arbitrary: j)
  case 0
  then have "j = m" by simp
  then show ?case
    using "0.prems"(4) by (subst has_loop.simps) (simp add: holds_def)
next
  case (Suc n)
  let ?c = "capacity t"
  have jm: "j < m" using Suc.hyps(2) by simp
  have c: "0 < ?c" using Suc.prems by simp
  have lt: "slot ?c h j < ?c" using c by (rule slot_less)
  have nh: "\<not> holds t k (slot ?c h j)" using Suc.prems(5) jm by simp
  then have nm: "\<not> (COMT_TAB_IS_OCCUPIED (meta t (slot ?c h j)) \<and> keys t (slot ?c h j) = k)"
    using lt by (simp add: holds_def)
  have sj: "Suc j < ?c" using jm Suc.prems(3) by simp
  then have ne: "(slot ?c h j + 1) mod ?c \<noteq> h"
    using slot_neq_start [of h ?c "Suc j"] Suc.prems(1) by (simp add: slot_Suc slot_Suc')
  have "has_loop t k (slot ?c h (Suc j)) h = Some (Inr True)"
    using Suc.hyps(1) [of "Suc j"] Suc.hyps(2) Suc.prems jm by simp
  then show ?case
    using lt nm ne by (subst has_loop.simps) (auto simp: slot_Suc slot_Suc')
qed


lemma put_loop_update:
  assumes "j \<le> m" "m < capacity t"
    and "holds t k (slot (capacity t) h m)"
    and "\<forall>j'. j \<le> j' \<and> j' < m \<longrightarrow>
           COMT_TAB_IS_OCCUPIED (meta t (slot (capacity t) h j')) \<and>
           keys t (slot (capacity t) h j') \<noteq> k"
  shows "put_loop t k v (slot (capacity t) h j) =
           Some (Inr (t\<lparr> values_t := (values_t t)(slot (capacity t) h m := v),
                         keys := (keys t)(slot (capacity t) h m := k) \<rparr>))"
  using assms
proof (induction "m - j" arbitrary: j)
  case 0
  then have "j = m" by simp
  then show ?case
    using "0.prems"(3)
    by (subst put_loop.simps) (simp add: holds_def COMT_TAB_IS_FREE_def)
next
  case (Suc n)
  let ?c = "capacity t"
  have jm: "j < m" using Suc.hyps(2) by simp
  have c: "0 < ?c" using Suc.prems by simp
  have lt: "slot ?c h j < ?c" using c by (rule slot_less)
  have oc: "COMT_TAB_IS_OCCUPIED (meta t (slot ?c h j))" "keys t (slot ?c h j) \<noteq> k"
    using Suc.prems(4) jm by simp_all
  have "put_loop t k v (slot ?c h (Suc j)) =
          Some (Inr (t\<lparr> values_t := (values_t t)(slot ?c h m := v),
                        keys := (keys t)(slot ?c h m := k) \<rparr>))"
    using Suc.hyps(1) [of "Suc j"] Suc.hyps(2) Suc.prems jm by simp
  then show ?case
    using lt oc
    by (subst put_loop.simps) (simp add: slot_Suc slot_Suc' COMT_TAB_IS_FREE_def)
qed

lemma put_loop_insert:
  assumes "j \<le> m" "m < capacity t"
    and "COMT_TAB_IS_FREE (meta t (slot (capacity t) h m))"
    and "\<forall>j'. j \<le> j' \<and> j' < m \<longrightarrow>
           COMT_TAB_IS_OCCUPIED (meta t (slot (capacity t) h j')) \<and>
           keys t (slot (capacity t) h j') \<noteq> k"
  shows "put_loop t k v (slot (capacity t) h j) =
           Some (Inr (t\<lparr> meta := (meta t)(slot (capacity t) h m :=
                                   meta t (slot (capacity t) h m) OR COMT_TAB_META_OCCUPIED),
                         values_t := (values_t t)(slot (capacity t) h m := v),
                         keys := (keys t)(slot (capacity t) h m := k),
                         count := count t + 1 \<rparr>))"
  using assms
proof (induction "m - j" arbitrary: j)
  case 0
  then have "j = m" by simp
  moreover have "slot (capacity t) h m < capacity t"
    using "0.prems"(2) by (simp add: slot_less)
  ultimately show ?case
    using "0.prems"(3)
    by (subst put_loop.simps) simp
next
  case (Suc n)
  let ?c = "capacity t"
  have jm: "j < m" using Suc.hyps(2) by simp
  have c: "0 < ?c" using Suc.prems by simp
  have lt: "slot ?c h j < ?c" using c by (rule slot_less)
  have oc: "COMT_TAB_IS_OCCUPIED (meta t (slot ?c h j))" "keys t (slot ?c h j) \<noteq> k"
    using Suc.prems(4) jm by simp_all
  have "put_loop t k v (slot ?c h (Suc j)) =
          Some (Inr (t\<lparr> meta := (meta t)(slot ?c h m := meta t (slot ?c h m) OR COMT_TAB_META_OCCUPIED),
                        values_t := (values_t t)(slot ?c h m := v),
                        keys := (keys t)(slot ?c h m := k),
                        count := count t + 1 \<rparr>))"
    using Suc.hyps(1) [of "Suc j"] Suc.hyps(2) Suc.prems jm by simp
  then show ?case
    using lt oc
    by (subst put_loop.simps) (simp add: slot_Suc slot_Suc' COMT_TAB_IS_FREE_def)
qed

lemma home_less: "0 < capacity t \<Longrightarrow> home H t k < capacity t"
  by (simp add: home_def)

lemma holds_unique:
  assumes "table_inv H t" "holds t k i" "holds t k i'"
  shows "i = i'"
proof -
  let ?c = "capacity t" and ?h = "home H t k"
  have c: "0 < ?c" and pk: "probe_ok H t" using assms(1) by (simp_all add: table_inv_def)
  have h: "?h < ?c" using c by (rule home_less)
  obtain m where m: "m < ?c" "slot ?c ?h m = i"
    using slot_surj [of i ?c ?h] assms(2) h by (auto simp: holds_def)
  obtain m' where m': "m' < ?c" "slot ?c ?h m' = i'"
    using slot_surj [of i' ?c ?h] assms(3) h by (auto simp: holds_def)
  have "\<not> m < m'"
    using pk m m' assms(2,3) unfolding probe_ok_def holds_def by blast
  moreover have "\<not> m' < m"
    using pk m m' assms(2,3) unfolding probe_ok_def holds_def by blast
  ultimately have "m = m'" by simp
  then show ?thesis using m m' by simp
qed

lemma occupied_after_mark [simp]: "COMT_TAB_IS_OCCUPIED (x OR COMT_TAB_META_OCCUPIED)"
proof -
  have "(x OR 1) AND (1::u8) = 1"
    by (simp add: bit.conj_disj_distrib2)
  then show ?thesis
    by (simp add: COMT_TAB_IS_OCCUPIED_def COMT_TAB_META_OCCUPIED_def)
qed

lemma get_found:
  assumes "table_inv H t" "holds t k i"
  shows "get H t k = Some (Inr (Some (values_t t i)))"
proof -
  let ?c = "capacity t" and ?h = "home H t k"
  have c: "0 < ?c" and pk: "probe_ok H t" using assms(1) by (simp_all add: table_inv_def)
  have h: "?h < ?c" using c by (rule home_less)
  obtain m where m: "m < ?c" "slot ?c ?h m = i"
    using slot_surj [of i ?c ?h] assms(2) h by (auto simp: holds_def)
  have before: "\<forall>j'. 0 \<le> j' \<and> j' < m \<longrightarrow> \<not> holds t k (slot ?c ?h j')"
    using pk m assms(2) unfolding probe_ok_def holds_def by blast
  have "get_loop t k (slot ?c ?h 0) ?h = Some (Inr (Some (values_t t (slot ?c ?h m))))"
    using get_loop_hit [of ?h t 0 m k] h m assms(2) before by simp
  then show ?thesis
    using c h m by (simp add: get_def slot_0 home_def)
qed

lemma get_absent:
  assumes "0 < capacity t" "\<forall>i. \<not> holds t k i"
  shows "get H t k = Some (Inr None)"
proof -
  let ?c = "capacity t" and ?h = "home H t k"
  have h: "?h < ?c" using assms(1) by (rule home_less)
  have "get_loop t k (slot ?c ?h 0) ?h = Some (Inr None)"
    using get_loop_miss [of ?h t 0 k] h assms by simp
  then show ?thesis
    using assms(1) h by (simp add: get_def slot_0 home_def)
qed

lemma has_found:
  assumes "table_inv H t" "holds t k i"
  shows "has H t k = Some (Inr True)"
proof -
  let ?c = "capacity t" and ?h = "home H t k"
  have c: "0 < ?c" and pk: "probe_ok H t" using assms(1) by (simp_all add: table_inv_def)
  have h: "?h < ?c" using c by (rule home_less)
  obtain m where m: "m < ?c" "slot ?c ?h m = i"
    using slot_surj [of i ?c ?h] assms(2) h by (auto simp: holds_def)
  have before: "\<forall>j'. 0 \<le> j' \<and> j' < m \<longrightarrow> \<not> holds t k (slot ?c ?h j')"
    using pk m assms(2) unfolding probe_ok_def holds_def by blast
  have "has_loop t k (slot ?c ?h 0) ?h = Some (Inr True)"
    using has_loop_hit [of ?h t 0 m k] h m assms(2) before by simp
  then show ?thesis
    using c h m by (simp add: has_def slot_0 home_def)
qed

lemma has_absent:
  assumes "0 < capacity t" "\<forall>i. \<not> holds t k i"
  shows "has H t k = Some (Inr False)"
proof -
  let ?c = "capacity t" and ?h = "home H t k"
  have h: "?h < ?c" using assms(1) by (rule home_less)
  have "has_loop t k (slot ?c ?h 0) ?h = Some (Inr False)"
    using has_loop_miss [of ?h t 0 k] h assms by simp
  then show ?thesis
    using assms(1) h by (simp add: has_def slot_0 home_def)
qed

lemma table_inv_cong:
  assumes "capacity t' = capacity t" "count t' = count t" "meta t' = meta t" "keys t' = keys t"
  shows "table_inv H t' = table_inv H t"
  using assms by (simp add: table_inv_def probe_ok_def holds_def home_def)

lemma update_spec:
  fixes v :: 'v
  assumes "table_inv H t" "holds t k i"
  defines "t' \<equiv> t\<lparr> values_t := (values_t t)(i := v), keys := (keys t)(i := k) \<rparr>"
  shows "table_inv H t'"
    and "\<forall>k' v'. entry t' k' v' \<longleftrightarrow> (if k' = k then v' = v else entry t k' v')"
proof -
  have ki: "keys t i = k" using assms(2) by (simp add: holds_def)
  then have keys: "keys t' = keys t" by (auto simp: t'_def)
  show "table_inv H t'"
    using assms(1) table_inv_cong [of t' t H] keys by (simp add: t'_def)
  have hold: "\<And>k' x. holds t' k' x = holds t k' x"
    using keys by (simp add: holds_def t'_def)
  show "\<forall>k' v'. entry t' k' v' \<longleftrightarrow> (if k' = k then v' = v else entry t k' v')"
  proof (intro allI)
    fix k' v'
    show "entry t' k' v' \<longleftrightarrow> (if k' = k then v' = v else entry t k' v')"
    proof (cases "k' = k")
      case True
      have "entry t' k v' \<longleftrightarrow> v' = v"
      proof
        assume "entry t' k v'"
        then obtain x where x: "holds t k x" "values_t t' x = v'"
          by (auto simp: entry_def hold)
        then have "x = i" using holds_unique [OF assms(1) _ assms(2)] by simp
        then show "v' = v" using x by (simp add: t'_def)
      next
        assume "v' = v"
        then show "entry t' k v'"
          using assms(2) unfolding entry_def hold by (auto simp: t'_def)
      qed
      then show ?thesis using True by simp
    next
      case False
      have "\<And>x. holds t k' x \<Longrightarrow> x \<noteq> i"
        using ki False by (auto simp: holds_def)
      then have "entry t' k' v' = entry t k' v'"
        unfolding entry_def hold by (auto simp: t'_def)
      then show ?thesis using False by simp
    qed
  qed
qed

lemma insert_spec:
  fixes v :: 'v
  assumes inv: "table_inv H t"
    and m: "m < capacity t"
    and free: "COMT_TAB_IS_FREE (meta t (slot (capacity t) (home H t k) m))"
    and before: "\<forall>j'<m. COMT_TAB_IS_OCCUPIED (meta t (slot (capacity t) (home H t k) j')) \<and>
                   keys t (slot (capacity t) (home H t k) j') \<noteq> k"
    and absent: "\<forall>x. \<not> holds t k x"
  defines "i \<equiv> slot (capacity t) (home H t k) m"
  defines "t' \<equiv> t\<lparr> meta := (meta t)(i := meta t i OR COMT_TAB_META_OCCUPIED),
                     values_t := (values_t t)(i := v),
                     keys := (keys t)(i := k),
                     count := count t + 1 \<rparr>"
  shows "table_inv H t'"
    and "\<forall>k' v'. entry t' k' v' \<longleftrightarrow> (if k' = k then v' = v else entry t k' v')"
proof -
  let ?c = "capacity t"
  have c: "0 < ?c" and pk: "probe_ok H t"
    and cnt: "count t = card {x. x < ?c \<and> COMT_TAB_IS_OCCUPIED (meta t x)}"
    using inv by (simp_all add: table_inv_def)
  have ic: "i < ?c" using c by (simp add: i_def slot_less)
  have nocc: "\<not> COMT_TAB_IS_OCCUPIED (meta t i)"
    using free by (simp add: COMT_TAB_IS_FREE_def i_def)
  have cap': "capacity t' = ?c" by (simp add: t'_def)
  have occ': "\<And>x. COMT_TAB_IS_OCCUPIED (meta t' x) \<longleftrightarrow> x = i \<or> COMT_TAB_IS_OCCUPIED (meta t x)"
    by (simp add: t'_def)
  have keys': "\<And>x. x \<noteq> i \<Longrightarrow> keys t' x = keys t x"
    by (simp add: t'_def)
  have hold': "\<And>k' x. holds t' k' x \<longleftrightarrow> (x = i \<and> k' = k) \<or> holds t k' x"
    using ic nocc by (auto simp: holds_def t'_def)
  have home': "\<And>k'. home H t' k' = home H t k'"
    by (simp add: home_def t'_def)
  have "{x. x < ?c \<and> COMT_TAB_IS_OCCUPIED (meta t' x)} =
          insert i {x. x < ?c \<and> COMT_TAB_IS_OCCUPIED (meta t x)}"
    using ic occ' by auto
  moreover have "i \<notin> {x. x < ?c \<and> COMT_TAB_IS_OCCUPIED (meta t x)}"
    using nocc by simp
  moreover have "finite {x. x < ?c \<and> COMT_TAB_IS_OCCUPIED (meta t x)}"
    by simp
  ultimately have "card {x. x < ?c \<and> COMT_TAB_IS_OCCUPIED (meta t' x)} = Suc (count t)"
    using cnt by simp
  then have cnt': "count t' = card {x. x < capacity t' \<and> COMT_TAB_IS_OCCUPIED (meta t' x)}"
    by (simp add: t'_def)
  have pk': "probe_ok H t'"
    unfolding probe_ok_def
  proof (intro allI impI, elim conjE)
    fix k' j j'
    assume j: "j < capacity t'"
      and hd: "holds t' k' (slot (capacity t') (home H t' k') j)"
      and j': "j' < j"
    let ?s = "\<lambda>n. slot ?c (home H t k') n"
    from hd have "(?s j = i \<and> k' = k) \<or> holds t k' (?s j)"
      by (simp add: hold' cap' home')
    then have old: "COMT_TAB_IS_OCCUPIED (meta t (?s j')) \<and> keys t (?s j') \<noteq> k'"
    proof
      assume a: "?s j = i \<and> k' = k"
      then have "slot ?c (home H t k) j = slot ?c (home H t k) m"
        by (auto simp: i_def)
      then have "j = m"
        using slot_inj [of j ?c m "home H t k"] j m by (simp add: cap')
      then show ?thesis using before j' a by simp
    next
      assume "holds t k' (?s j)"
      then show ?thesis
        using pk j j' unfolding probe_ok_def by (auto simp: cap')
    qed
    then have "?s j' \<noteq> i" using nocc by auto
    then show "COMT_TAB_IS_OCCUPIED (meta t' (slot (capacity t') (home H t' k') j')) \<and>
               keys t' (slot (capacity t') (home H t' k') j') \<noteq> k'"
      using old by (simp add: cap' home' occ' keys')
  qed
  show "table_inv H t'"
    using c cnt' pk' by (simp add: table_inv_def cap')
  show "\<forall>k' v'. entry t' k' v' \<longleftrightarrow> (if k' = k then v' = v else entry t k' v')"
  proof (intro allI)
    fix k' v'
    show "entry t' k' v' \<longleftrightarrow> (if k' = k then v' = v else entry t k' v')"
    proof (cases "k' = k")
      case True
      have "\<And>x. holds t' k x \<longleftrightarrow> x = i" using absent by (simp add: hold')
      then have "entry t' k v' \<longleftrightarrow> v' = v"
        by (auto simp: entry_def t'_def)
      then show ?thesis using True by simp
    next
      case False
      have "\<And>x. holds t' k' x \<longleftrightarrow> holds t k' x" using False by (simp add: hold')
      moreover have "\<And>x. holds t k' x \<Longrightarrow> x \<noteq> i"
        using nocc by (auto simp: holds_def)
      ultimately have "entry t' k' v' = entry t k' v'"
        unfolding entry_def by (auto simp: t'_def)
      then show ?thesis using False by simp
    qed
  qed
qed

lemma free_slot_exists:
  assumes "table_inv H t" "count t < capacity t" "h < capacity t"
  shows "\<exists>j<capacity t. COMT_TAB_IS_FREE (meta t (slot (capacity t) h j))"
proof -
  let ?c = "capacity t"
  let ?O = "{x. x < ?c \<and> COMT_TAB_IS_OCCUPIED (meta t x)}"
  have lt: "card ?O < ?c"
    using assms(1,2) by (simp add: table_inv_def)
  have "\<exists>x<?c. \<not> COMT_TAB_IS_OCCUPIED (meta t x)"
  proof (rule ccontr)
    assume "\<not> (\<exists>x<?c. \<not> COMT_TAB_IS_OCCUPIED (meta t x))"
    then have "?O = {..<?c}" by auto
    then have "card ?O = ?c" by (simp only: card_lessThan)
    then show False using lt by simp
  qed
  then obtain x where x: "x < ?c" "\<not> COMT_TAB_IS_OCCUPIED (meta t x)" by blast
  then obtain j where "j < ?c" "slot ?c h j = x"
    using slot_surj [of x ?c h] assms(3) by auto
  then show ?thesis using x by (auto simp: COMT_TAB_IS_FREE_def)
qed

lemma put_loop_spec:
  fixes v :: 'v
  assumes "table_inv H t" "count t < capacity t"
  shows "\<exists>t'. put_loop t k v (home H t k) = Some (Inr t') \<and> table_inv H t' \<and>
               capacity t' = capacity t \<and> allocator t' = allocator t \<and>
               (\<forall>k' v'. entry t' k' v' \<longleftrightarrow> (if k' = k then v' = v else entry t k' v'))"
proof -
  let ?c = "capacity t" and ?h = "home H t k"
  have c: "0 < ?c" and pk: "probe_ok H t" using assms(1) by (simp_all add: table_inv_def)
  have h: "?h < ?c" using c by (rule home_less)
  show ?thesis
  proof (cases "\<exists>i. holds t k i")
    case True
    then obtain i where i: "holds t k i" by blast
    obtain m where m: "m < ?c" "slot ?c ?h m = i"
      using slot_surj [of i ?c ?h] i h by (auto simp: holds_def)
    have before: "\<forall>j'. 0 \<le> j' \<and> j' < m \<longrightarrow>
           COMT_TAB_IS_OCCUPIED (meta t (slot ?c ?h j')) \<and> keys t (slot ?c ?h j') \<noteq> k"
      using pk m i unfolding probe_ok_def by blast
    define t' where "t' = t\<lparr> values_t := (values_t t)(i := v), keys := (keys t)(i := k) \<rparr>"
    have "put_loop t k v (slot ?c ?h 0) = Some (Inr t')"
      unfolding t'_def using put_loop_update [of 0 m t k ?h v] m i before by simp
    then have pl: "put_loop t k v ?h = Some (Inr t')"
      using h by (simp add: slot_0)
    have f1: "table_inv H t'"
      unfolding t'_def by (rule update_spec(1) [OF assms(1) i, of v])
    have f2: "\<forall>k' v'. entry t' k' v' \<longleftrightarrow> (if k' = k then v' = v else entry t k' v')"
      unfolding t'_def by (rule update_spec(2) [OF assms(1) i, of v])
    have f3: "capacity t' = ?c" and f4: "allocator t' = allocator t"
      by (simp_all add: t'_def)
    show ?thesis
      using pl f1 f3 f4 f2 by - (rule exI [of _ t'], (intro conjI; assumption))
  next
    case False
    then have absent: "\<forall>x. \<not> holds t k x" by simp
    define m where "m = (LEAST j. COMT_TAB_IS_FREE (meta t (slot ?c ?h j)))"
    obtain j0 where j0: "j0 < ?c" "COMT_TAB_IS_FREE (meta t (slot ?c ?h j0))"
      using free_slot_exists [OF assms h] by blast
    have mfree: "COMT_TAB_IS_FREE (meta t (slot ?c ?h m))"
      unfolding m_def using j0(2) by (rule LeastI)
    have "m \<le> j0" unfolding m_def using j0(2) by (rule Least_le)
    then have mc: "m < ?c" using j0(1) by simp
    have occb: "COMT_TAB_IS_OCCUPIED (meta t (slot ?c ?h j'))" if "j' < m" for j'
    proof -
      have "\<not> COMT_TAB_IS_FREE (meta t (slot ?c ?h j'))"
        using that unfolding m_def by (rule not_less_Least)
      then show ?thesis by (simp add: COMT_TAB_IS_FREE_def)
    qed
    have before: "\<forall>j'<m. COMT_TAB_IS_OCCUPIED (meta t (slot ?c ?h j')) \<and>
                    keys t (slot ?c ?h j') \<noteq> k"
      using occb absent c by (auto simp: holds_def slot_less)
    then have before0: "\<forall>j'. 0 \<le> j' \<and> j' < m \<longrightarrow>
           COMT_TAB_IS_OCCUPIED (meta t (slot ?c ?h j')) \<and> keys t (slot ?c ?h j') \<noteq> k"
      by simp
    define t' where "t' = t\<lparr> meta := (meta t)(slot ?c ?h m := meta t (slot ?c ?h m) OR COMT_TAB_META_OCCUPIED),
                          values_t := (values_t t)(slot ?c ?h m := v),
                          keys := (keys t)(slot ?c ?h m := k),
                          count := count t + 1 \<rparr>"
    have "put_loop t k v (slot ?c ?h 0) = Some (Inr t')"
      unfolding t'_def using put_loop_insert [of 0 m t ?h k v] mc mfree before0 by simp
    then have pl: "put_loop t k v ?h = Some (Inr t')"
      using h by (simp add: slot_0)
    have f1: "table_inv H t'"
      unfolding t'_def by (rule insert_spec(1) [OF assms(1) mc mfree before absent, of v])
    have f2: "\<forall>k' v'. entry t' k' v' \<longleftrightarrow> (if k' = k then v' = v else entry t k' v')"
      unfolding t'_def by (rule insert_spec(2) [OF assms(1) mc mfree before absent, of v])
    have f3: "capacity t' = ?c" and f4: "allocator t' = allocator t"
      by (simp_all add: t'_def)
    show ?thesis
      using pl f1 f3 f4 f2 by - (rule exI [of _ t'], (intro conjI; assumption))
  qed
qed

lemma load_below_iff:
  "0 < capacity t \<Longrightarrow> load_percentage t < 70 \<longleftrightarrow> 10 * count t < 7 * capacity t"
  by (auto simp: load_percentage_def div_less_iff_less_mult)

lemma put_below_gate:
  assumes "0 < capacity t" "load_percentage t < 70"
  shows "put (Suc d) H t k v = put_loop t k v (home H t k)"
  using assms by (simp add: home_def)

lemma reinsert_append:
  "reinsert d H t (xs @ ys) nt =
     (case reinsert d H t xs nt of
        Some (Inr nt') \<Rightarrow> reinsert d H t ys nt'
      | other \<Rightarrow> other)"
  by (induction xs arbitrary: nt) (auto split: option.splits sum.splits)

lemma holds_Table_alloc:
  assumes "zeroing a"
  shows "\<not> holds (Table_alloc a n) k i"
  using assms by (auto simp: zeroing_def holds_def Table_alloc_def COMT_TAB_IS_FREE_def)

lemma table_inv_Table_alloc:
  assumes "zeroing a" "0 < n"
  shows "table_inv H (Table_alloc a n)"
proof -
  have "\<And>i. i < n \<Longrightarrow> \<not> COMT_TAB_IS_OCCUPIED (alloc_Meta a n i)"
    using assms(1) by (auto simp: zeroing_def COMT_TAB_IS_FREE_def)
  then have "{i. i < n \<and> COMT_TAB_IS_OCCUPIED (alloc_Meta a n i)} = {}"
    by blast
  then have "count (Table_alloc a n) =
     card {i. i < capacity (Table_alloc a n) \<and> COMT_TAB_IS_OCCUPIED (meta (Table_alloc a n) i)}"
    by (simp add: Table_alloc_def)
  moreover have "probe_ok H (Table_alloc a n)"
    using holds_Table_alloc [OF assms(1)] by (simp add: probe_ok_def)
  moreover have "0 < capacity (Table_alloc a n)"
    using assms(2) by (simp add: Table_alloc_def)
  ultimately show ?thesis by (simp add: table_inv_def)
qed

lemma keys_inj_on:
  assumes "table_inv H t"
  shows "inj_on (keys t) {i. i < capacity t \<and> COMT_TAB_IS_OCCUPIED (meta t i)}"
proof (rule inj_onI)
  fix x y
  assume "x \<in> {i. i < capacity t \<and> COMT_TAB_IS_OCCUPIED (meta t i)}"
    and "y \<in> {i. i < capacity t \<and> COMT_TAB_IS_OCCUPIED (meta t i)}"
    and "keys t x = keys t y"
  then have "holds t (keys t y) x" "holds t (keys t y) y"
    by (simp_all add: holds_def)
  then show "x = y" using holds_unique [OF assms] by blast
qed


lemma keyset_image:
  "keyset t = keys t ` {i. i < capacity t \<and> COMT_TAB_IS_OCCUPIED (meta t i)}"
  by (auto simp: keyset_def entry_def holds_def)

lemma count_keyset:
  assumes "table_inv H t"
  shows "count t = card (keyset t)"
proof -
  have "count t = card {i. i < capacity t \<and> COMT_TAB_IS_OCCUPIED (meta t i)}"
    using assms by (simp add: table_inv_def)
  then show ?thesis
    using card_image [OF keys_inj_on [OF assms]] by (simp add: keyset_image)
qed

lemma count_le_capacity:
  assumes "table_inv H t"
  shows "count t \<le> capacity t"
proof -
  have "card {i. i < capacity t \<and> COMT_TAB_IS_OCCUPIED (meta t i)} \<le> card {..<capacity t}"
    by (rule card_mono) auto
  then show ?thesis using assms by (simp add: table_inv_def)
qed

lemma count_bound_prefix:
  assumes "table_inv H nt"
    and "\<forall>k v. entry nt k v \<longleftrightarrow> (\<exists>i<n. holds t k i \<and> values_t t i = v)"
  shows "count nt \<le> n"
proof -
  have "keyset nt \<subseteq> keys t ` {..<n}"
    using assms(2) by (auto simp: keyset_def holds_def)
  then have "card (keyset nt) \<le> card (keys t ` {..<n})"
    by (intro card_mono) auto
  also have "\<dots> \<le> card {..<n}" by (rule card_image_le) simp
  finally show ?thesis using count_keyset [OF assms(1)] by simp
qed

lemma growth_gate:
  assumes "count nt \<le> c" "capacity nt = COMT_TABLE_GROWTH_FACTOR c"
  shows "load_percentage nt < 70" and "count nt < capacity nt" and "0 < capacity nt"
proof -
  show c: "0 < capacity nt" using assms(2) by (simp add: COMT_TABLE_GROWTH_FACTOR_def)
  have "10 * count nt < 7 * capacity nt"
    using assms by (simp add: COMT_TABLE_GROWTH_FACTOR_def)
  then show "load_percentage nt < 70" using c by (simp add: load_below_iff)
  show "count nt < capacity nt"
    using assms by (simp add: COMT_TABLE_GROWTH_FACTOR_def)
qed

lemma reinsert_prefix:
  assumes inv: "table_inv H t" and z: "zeroing (allocator t)" and n: "n \<le> capacity t"
  shows "\<exists>nt. reinsert (Suc d) H t [0..<n]
                 (Table_alloc (allocator t) (COMT_TABLE_GROWTH_FACTOR (capacity t))) = Some (Inr nt) \<and>
              table_inv H nt \<and> capacity nt = COMT_TABLE_GROWTH_FACTOR (capacity t) \<and>
              allocator nt = allocator t \<and>
              (\<forall>k v. entry nt k v \<longleftrightarrow> (\<exists>i<n. holds t k i \<and> values_t t i = v))"
  using n
proof (induction n)
  case 0
  let ?G = "COMT_TABLE_GROWTH_FACTOR (capacity t)"
  let ?nt = "Table_alloc (allocator t) ?G"
  have "table_inv H ?nt"
    using table_inv_Table_alloc [OF z] by (simp add: COMT_TABLE_GROWTH_FACTOR_def)
  moreover have "\<forall>k v. \<not> entry ?nt k v"
    using holds_Table_alloc [OF z] by (simp add: entry_def)
  moreover have "capacity ?nt = ?G" "allocator ?nt = allocator t"
    by (simp_all add: Table_alloc_def)
  ultimately show ?case by simp
next
  case (Suc n)
  let ?G = "COMT_TABLE_GROWTH_FACTOR (capacity t)"
  let ?nt0 = "Table_alloc (allocator t) ?G"
  have nc: "n < capacity t" using Suc.prems by simp
  obtain nt where run: "reinsert (Suc d) H t [0..<n] ?nt0 = Some (Inr nt)"
    and invn: "table_inv H nt" and cap: "capacity nt = ?G" and al: "allocator nt = allocator t"
    and ent: "\<forall>k v. entry nt k v \<longleftrightarrow> (\<exists>i<n. holds t k i \<and> values_t t i = v)"
    using Suc.IH nc by auto
  have step: "reinsert (Suc d) H t [0..<Suc n] ?nt0 = reinsert (Suc d) H t [n] nt"
    using run by (simp add: reinsert_append)
  show ?case
  proof (cases "COMT_TAB_IS_OCCUPIED (meta t n)")
    case False
    then have "\<And>k. \<not> holds t k n" by (simp add: holds_def)
    then have "\<forall>k v. entry nt k v \<longleftrightarrow> (\<exists>i<Suc n. holds t k i \<and> values_t t i = v)"
      using ent less_Suc_eq by auto
    moreover have "reinsert (Suc d) H t [0..<Suc n] ?nt0 = Some (Inr nt)"
      using step False by simp
    ultimately show ?thesis using invn cap al by blast
  next
    case True
    let ?k = "keys t n" and ?v = "values_t t n"
    have hn: "holds t ?k n" using True nc by (simp add: holds_def)
    have "count nt \<le> capacity t"
      using count_bound_prefix [OF invn ent] nc by simp
    then have gate: "load_percentage nt < 70" "count nt < capacity nt" "0 < capacity nt"
      using growth_gate [of nt "capacity t"] cap by simp_all
    obtain nt' where pl: "put_loop nt ?k ?v (home H nt ?k) = Some (Inr nt')"
      and inv': "table_inv H nt'" and cap': "capacity nt' = capacity nt"
      and al': "allocator nt' = allocator nt"
      and ent': "\<forall>k' v'. entry nt' k' v' \<longleftrightarrow> (if k' = ?k then v' = ?v else entry nt k' v')"
      using put_loop_spec [OF invn gate(2), of ?k ?v] by blast
    have "put (Suc d) H nt ?k ?v = Some (Inr nt')"
      using put_below_gate [OF gate(3) gate(1)] pl by simp
    then have res: "reinsert (Suc d) H t [0..<Suc n] ?nt0 = Some (Inr nt')"
      using step True by simp
    have "entry nt' k' v' \<longleftrightarrow> (\<exists>i<Suc n. holds t k' i \<and> values_t t i = v')" for k' v'
    proof (cases "k' = ?k")
      case True
      have "(\<exists>i<Suc n. holds t ?k i \<and> values_t t i = v') \<longleftrightarrow> v' = ?v"
        using hn holds_unique [OF inv _ hn] by auto
      then show ?thesis using ent' True by simp
    next
      case False
      then have "\<not> holds t k' n" by (auto simp: holds_def)
      then have "(\<exists>i<Suc n. holds t k' i \<and> values_t t i = v') \<longleftrightarrow>
                 (\<exists>i<n. holds t k' i \<and> values_t t i = v')"
        using less_Suc_eq by auto
      then show ?thesis using ent' ent False by simp
    qed
    then show ?thesis using res inv' cap' cap al' al by auto
  qed
qed

lemma entry_bounded:
  "(\<exists>i<capacity t. holds t k i \<and> values_t t i = v) \<longleftrightarrow> entry t k v"
  by (auto simp: entry_def holds_def)

lemma keyset_cong:
  "(\<forall>k v. entry nt k v \<longleftrightarrow> entry t k v) \<Longrightarrow> keyset nt = keyset t"
  by (simp add: keyset_def)

lemma rehash_spec:
  assumes inv: "table_inv H t" and z: "zeroing (allocator t)"
  shows "\<exists>nt. reinsert (Suc d) H t [0..<capacity t]
                 (Table_alloc (allocator t) (COMT_TABLE_GROWTH_FACTOR (capacity t))) = Some (Inr nt) \<and>
              table_inv H nt \<and> capacity nt = COMT_TABLE_GROWTH_FACTOR (capacity t) \<and>
              allocator nt = allocator t \<and>
              (\<forall>k v. entry nt k v \<longleftrightarrow> entry t k v) \<and> count nt = count t"
proof -
  obtain nt where nt: "reinsert (Suc d) H t [0..<capacity t]
                 (Table_alloc (allocator t) (COMT_TABLE_GROWTH_FACTOR (capacity t))) = Some (Inr nt)"
    "table_inv H nt" "capacity nt = COMT_TABLE_GROWTH_FACTOR (capacity t)" "allocator nt = allocator t"
    and ent: "\<forall>k v. entry nt k v \<longleftrightarrow> (\<exists>i<capacity t. holds t k i \<and> values_t t i = v)"
    using reinsert_prefix [OF inv z order_refl, of d] by blast
  have ent': "\<forall>k v. entry nt k v \<longleftrightarrow> entry t k v"
    using ent by (simp add: entry_bounded)
  then have "count nt = count t"
    using count_keyset [OF inv] count_keyset [OF nt(2)] keyset_cong [of nt t] by simp
  then show ?thesis using nt ent' by blast
qed

lemma put_spec:
  fixes v :: 'v
  assumes inv: "table_inv H t" and z: "zeroing (allocator t)"
  shows "\<exists>t'. put (Suc (Suc d)) H t k v = Some (Inr t') \<and> table_inv H t' \<and>
               allocator t' = allocator t \<and>
               (\<forall>k' v'. entry t' k' v' \<longleftrightarrow> (if k' = k then v' = v else entry t k' v'))"
proof (cases "70 \<le> load_percentage t")
  case False
  have c: "0 < capacity t" using inv by (simp add: table_inv_def)
  have "load_percentage t < 70" using False by simp
  then have "10 * count t < 7 * capacity t"
    using c by (simp add: load_below_iff)
  then have "count t < capacity t" by simp
  then obtain t' where "put_loop t k v (home H t k) = Some (Inr t')" "table_inv H t'"
      "allocator t' = allocator t"
      "\<forall>k' v'. entry t' k' v' \<longleftrightarrow> (if k' = k then v' = v else entry t k' v')"
    using put_loop_spec [OF inv, of k v] by blast
  moreover have "put (Suc (Suc d)) H t k v = put_loop t k v (home H t k)"
    using put_below_gate [OF c] False by simp
  ultimately show ?thesis by simp
next
  case True
  have c: "0 < capacity t" using inv by (simp add: table_inv_def)
  obtain nt where re: "reinsert (Suc d) H t [0..<capacity t]
                 (Table_alloc (allocator t) (COMT_TABLE_GROWTH_FACTOR (capacity t))) = Some (Inr nt)"
    and invn: "table_inv H nt" and cap: "capacity nt = COMT_TABLE_GROWTH_FACTOR (capacity t)"
    and al: "allocator nt = allocator t"
    and ent: "\<forall>k v. entry nt k v \<longleftrightarrow> entry t k v" and cnt: "count nt = count t"
    using rehash_spec [OF inv z, of d] by blast
  have "count nt \<le> capacity t" using cnt count_le_capacity [OF inv] by simp
  then have "count nt < capacity nt" using growth_gate(2) [OF _ cap] by simp
  then obtain t' where pl: "put_loop nt k v (home H nt k) = Some (Inr t')" and i': "table_inv H t'"
      and al': "allocator t' = allocator nt"
      and ent': "\<forall>k' v'. entry t' k' v' \<longleftrightarrow> (if k' = k then v' = v else entry nt k' v')"
    using put_loop_spec [OF invn, of k v] by blast
  have "put (Suc (Suc d)) H t k v = put_loop nt k v (home H nt k)"
    using c True re by (simp add: home_def)
  then show ?thesis using pl i' al al' ent ent' by simp
qed

lemma put_all_spec:
  assumes "table_inv H t" "zeroing (allocator t)"
  shows "\<exists>t'. put_all (Suc (Suc d)) H t kvs = Some (Inr t') \<and> table_inv H t' \<and>
               allocator t' = allocator t \<and>
               (\<forall>k v. entry t' k v \<longleftrightarrow>
                  (case map_of (rev kvs) k of Some v' \<Rightarrow> v = v' | None \<Rightarrow> entry t k v))"
  using assms
proof (induction kvs arbitrary: t)
  case Nil
  then show ?case by simp
next
  case (Cons kv kvs)
  obtain k0 v0 where kv: "kv = (k0, v0)" by (cases kv)
  obtain t1 where p: "put (Suc (Suc d)) H t k0 v0 = Some (Inr t1)" and i1: "table_inv H t1"
    and a1: "allocator t1 = allocator t"
    and e1: "\<forall>k' v'. entry t1 k' v' \<longleftrightarrow> (if k' = k0 then v' = v0 else entry t k' v')"
    using put_spec [OF Cons.prems, of d k0 v0] by blast
  have z1: "zeroing (allocator t1)" using a1 Cons.prems(2) by simp
  obtain t' where r: "put_all (Suc (Suc d)) H t1 kvs = Some (Inr t')" and i': "table_inv H t'"
    and a': "allocator t' = allocator t1"
    and e': "\<forall>k v. entry t' k v \<longleftrightarrow>
                  (case map_of (rev kvs) k of Some v' \<Rightarrow> v = v' | None \<Rightarrow> entry t1 k v)"
    using Cons.IH [OF i1 z1] by blast
  have "put_all (Suc (Suc d)) H t (kv # kvs) = Some (Inr t')"
    using p r kv by simp
  moreover have "entry t' k v \<longleftrightarrow>
      (case map_of (rev (kv # kvs)) k of Some v' \<Rightarrow> v = v' | None \<Rightarrow> entry t k v)" for k v
    using e' e1 kv by (auto simp: map_add_def split: option.splits)
  ultimately show ?case using i' a' a1 by simp
qed

lemma map_of_last_put:
  assumes "kvs = xs @ (k, v) # ys" "k \<notin> fst ` set ys"
  shows "map_of (rev kvs) k = Some v"
proof -
  have "map_of (rev ys) k = None"
    using assms(2) by (simp add: map_of_eq_None_iff)
  then show ?thesis using assms(1) by (simp add: map_add_def)
qed

lemma entry_get_has:
  assumes "table_inv H t" "entry t k v"
  shows "get H t k = Some (Inr (Some v))" and "has H t k = Some (Inr True)"
  using assms get_found [of H t k] has_found [of H t k] by (auto simp: entry_def)

section \<open>Array bounds of the probes\<close>

lemma get_loop_in_bounds:
  assumes "get_loop t k idx ini = Some r" and "idx < capacity t"
  shows "r \<noteq> Inl OutOfBounds"
proof -
  have "idx < capacity t \<longrightarrow> r \<noteq> Inl OutOfBounds"
    apply (rule get_loop.raw_induct
          [where P = "\<lambda>t k idx ini r. idx < capacity t \<longrightarrow> r \<noteq> Inl OutOfBounds",
           OF _ assms(1)])
    apply (rule impI)
    subgoal premises prems for f t key idx ini r
    proof (cases "(COMT_TAB_IS_OCCUPIED (meta t idx) \<and> keys t idx = key) \<or>
                  (idx + 1) mod capacity t = ini")
      case True
      then show ?thesis using prems(2,3) by (auto split: if_splits)
    next
      case False
      then have "f t key ((idx + 1) mod capacity t) ini = Some r"
        using prems(2,3) by (auto split: if_splits)
      moreover have "(idx + 1) mod capacity t < capacity t" using prems(3) by simp
      ultimately show ?thesis using prems(1) by blast
    qed
    done
  then show ?thesis using assms(2) by simp
qed

lemma has_loop_in_bounds:
  assumes "has_loop t k idx ini = Some r" and "idx < capacity t"
  shows "r \<noteq> Inl OutOfBounds"
proof -
  have "idx < capacity t \<longrightarrow> r \<noteq> Inl OutOfBounds"
    apply (rule has_loop.raw_induct
          [where P = "\<lambda>t k idx ini r. idx < capacity t \<longrightarrow> r \<noteq> Inl OutOfBounds",
           OF _ assms(1)])
    apply (rule impI)
    subgoal premises prems for f t key idx ini r
    proof (cases "(COMT_TAB_IS_OCCUPIED (meta t idx) \<and> keys t idx = key) \<or>
                  (idx + 1) mod capacity t = ini")
      case True
      then show ?thesis using prems(2,3) by (auto split: if_splits)
    next
      case False
      then have "f t key ((idx + 1) mod capacity t) ini = Some r"
        using prems(2,3) by (auto split: if_splits)
      moreover have "(idx + 1) mod capacity t < capacity t" using prems(3) by simp
      ultimately show ?thesis using prems(1) by blast
    qed
    done
  then show ?thesis using assms(2) by simp
qed

lemma put_loop_in_bounds:
  assumes "put_loop t k v idx = Some r" and "idx < capacity t"
  shows "r \<noteq> Inl OutOfBounds \<and> (\<forall>t'. r = Inr t' \<longrightarrow> capacity t' = capacity t)"
proof -
  have "idx < capacity t \<longrightarrow>
          r \<noteq> Inl OutOfBounds \<and> (\<forall>t'. r = Inr t' \<longrightarrow> capacity t' = capacity t)"
    apply (rule put_loop.raw_induct
          [where P = "\<lambda>t k v idx r. idx < capacity t \<longrightarrow>
               r \<noteq> Inl OutOfBounds \<and> (\<forall>t'. r = Inr t' \<longrightarrow> capacity t' = capacity t)",
           OF _ assms(1)])
    apply (rule impI)
    subgoal premises prems for f t key val idx r
    proof (cases "COMT_TAB_IS_FREE (meta t idx) \<or> keys t idx = key")
      case True
      then show ?thesis using prems(2,3) by (auto split: if_splits)
    next
      case False
      then have "f t key val ((idx + 1) mod capacity t) = Some r"
        using prems(2,3) by (auto split: if_splits)
      moreover have "(idx + 1) mod capacity t < capacity t" using prems(3) by simp
      ultimately show ?thesis using prems(1) by blast
    qed
    done
  then show ?thesis using assms(2) by simp
qed

lemma put_loop_ok:
  assumes "idx < capacity t"
  shows "put_loop t k v idx \<noteq> Some (Inl OutOfBounds) \<and>
         (\<forall>r. put_loop t k v idx = Some (Inr r) \<longrightarrow> 0 < capacity r)"
proof (cases "put_loop t k v idx")
  case None
  then show ?thesis by simp
next
  case (Some res)
  then show ?thesis using put_loop_in_bounds [OF Some assms] assms by auto
qed

lemma put_in_bounds_aux:
  "put d H t k v \<noteq> Some (Inl OutOfBounds) \<and>
     (\<forall>r. put d H t k v = Some (Inr r) \<longrightarrow> 0 < capacity r)"
  "0 < capacity nt \<longrightarrow> reinsert d H t xs nt \<noteq> Some (Inl OutOfBounds) \<and>
     (\<forall>r. reinsert d H t xs nt = Some (Inr r) \<longrightarrow> 0 < capacity r)"
proof (induction d H t k v and d H t xs nt rule: put_reinsert.induct)
  case (1 H t key "value")
  then show ?case by simp
next
  case (2 d H t key "value")
  show ?case
  proof (cases "capacity t = 0")
    case True
    then show ?thesis by simp
  next
    case c: False
    show ?thesis
    proof (cases "70 \<le> load_percentage t")
      case False
      have "unat (H key) mod capacity t < capacity t" using c by simp
      then show ?thesis
        using put_loop_ok [of "unat (H key) mod capacity t" t key "value"] c False
        by simp
    next
      case True
      let ?new = "Table_alloc (allocator t) (COMT_TABLE_GROWTH_FACTOR (capacity t))"
      have pos: "0 < capacity ?new"
        by (simp add: Table_alloc_def COMT_TABLE_GROWTH_FACTOR_def)
      have IH: "reinsert d H t [0..<capacity t] ?new \<noteq> Some (Inl OutOfBounds)"
        "\<And>r. reinsert d H t [0..<capacity t] ?new = Some (Inr r) \<Longrightarrow> 0 < capacity r"
        using "2.IH" c True pos by auto
      show ?thesis
      proof (cases "reinsert d H t [0..<capacity t] ?new")
        case None
        then show ?thesis using c True by simp
      next
        case (Some res)
        show ?thesis
        proof (cases res)
          case (Inl e)
          then show ?thesis using c True Some IH(1) by auto
        next
          case (Inr nt)
          have cn: "0 < capacity nt" using IH(2) Some Inr by simp
          then have "unat (H key) mod capacity nt < capacity nt" by simp
          then show ?thesis
            using put_loop_ok [of "unat (H key) mod capacity nt" nt key "value"]
              c True Some Inr
            by simp
        qed
      qed
    qed
  qed
next
  case (3 d H t new_table)
  then show ?case by simp
next
  case (4 d H t i "is" new_table)
  show ?case
  proof (cases "COMT_TAB_IS_OCCUPIED (meta t i)")
    case False
    then show ?thesis using "4.IH"(3) by simp
  next
    case True
    show ?thesis
    proof (cases "put d H new_table (keys t i) (values_t t i)")
      case None
      then show ?thesis using True by simp
    next
      case (Some res)
      show ?thesis
      proof (cases res)
        case (Inl e)
        then show ?thesis using True Some "4.IH"(1) by auto
      next
        case (Inr nt')
        then have "0 < capacity nt'" using "4.IH"(1) True Some by simp
        then show ?thesis using "4.IH"(2) [OF True] True Some Inr by simp
      qed
    qed
  qed
qed

lemma set_put_out_of_bounds:
  assumes "0 < capacity_s s" "Set_load_percentage s < 70" "capacity_s s \<le> unat (H e)"
  shows "Set_put (Suc d) H s e = Some (Inl OutOfBounds)"
proof -
  have "Set_put_loop s e (unat (H e)) = Some (Inl OutOfBounds)"
    using assms(3) by (subst Set_put_loop.simps) simp
  then show ?thesis using assms(1,2) by simp
qed

lemma set_has_out_of_bounds:
  assumes "capacity_s s \<le> unat (H e)"
  shows "Set_has H s e = Some (Inl OutOfBounds)"
  unfolding Set_has_def using assms by (subst Set_has_loop.simps) simp

section \<open>Properties of the allocators\<close>

subsection \<open>Alignment\<close>

lemma unat_pow2:
  assumes "n < 64"
  shows "unat (2 ^ n :: u64) = 2 ^ n"
proof -
  have "unat (of_nat (2 ^ n) :: u64) = 2 ^ n mod 2 ^ 64"
    by (simp only: unat_of_nat) simp
  moreover have "(2::nat) ^ n < 2 ^ 64"
    using assms by (intro power_strict_increasing) simp_all
  ultimately show ?thesis by simp
qed

lemma unat_align_to_pow:
  fixes x :: u64
  assumes n: "n < 64" and fit: "unat x + 2 ^ n \<le> 2 ^ 64"
  shows "unat (align_to x (2 ^ n)) = unat x + (2 ^ n - unat x mod 2 ^ n) mod 2 ^ n"
proof -
  let ?a = "2 ^ n :: u64"
  let ?m = "take_bit n x"
  have a: "unat ?a = 2 ^ n" using n by (rule unat_pow2)
  have "unat ?m = take_bit n (unat x)" by (rule unsigned_take_bit_eq)
  then have m: "unat ?m = unat x mod 2 ^ n"
    by (simp only: take_bit_eq_mod)
  then have mlt: "unat ?m < 2 ^ n" by simp
  then have "?m \<le> ?a" using a by (simp add: word_le_nat_alt)
  then have d: "unat (?a - ?m) = 2 ^ n - unat x mod 2 ^ n"
    using a m by (simp add: unat_sub)
  have "unat (take_bit n (?a - ?m)) = take_bit n (unat (?a - ?m))"
    by (rule unsigned_take_bit_eq)
  then have y: "unat (take_bit n (?a - ?m)) = (2 ^ n - unat x mod 2 ^ n) mod 2 ^ n"
    using d by (simp only: take_bit_eq_mod)
  then have "unat (take_bit n (?a - ?m)) < 2 ^ n" by simp
  then have "unat x + unat (take_bit n (?a - ?m)) < 2 ^ 64" using fit by simp
  then have "unat (x + take_bit n (?a - ?m)) = unat x + unat (take_bit n (?a - ?m))"
    using unat_add_lem [of x "take_bit n (?a - ?m)"] by simp
  moreover have "align_to x ?a = x + take_bit n (?a - ?m)"
    by (simp add: align_to_def take_bit_eq_mask mask_eq_exp_minus_1)
  ultimately show ?thesis using y by simp
qed

lemma align_round_up:
  fixes m k :: nat
  assumes "0 < k"
  shows "m \<le> m + (k - m mod k) mod k" and "m + (k - m mod k) mod k < m + k"
    and "k dvd m + (k - m mod k) mod k"
proof -
  show "m \<le> m + (k - m mod k) mod k" by simp
  show "m + (k - m mod k) mod k < m + k" using assms by simp
  show "k dvd m + (k - m mod k) mod k"
  proof (cases "m mod k = 0")
    case True
    then show ?thesis by auto
  next
    case False
    then have "(k - m mod k) mod k = k - m mod k" using assms by simp
    moreover have "m + (k - m mod k) = (m div k + 1) * k"
    proof -
      have "m mod k < k" "m mod k \<le> m" using assms by simp_all
      then have "m + (k - m mod k) = k + (m - m mod k)" by simp
      also have "\<dots> = k + k * (m div k)" by (simp only: minus_mod_eq_mult_div)
      finally show ?thesis by simp
    qed
    ultimately show ?thesis by simp
  qed
qed

lemma align_to_ptr:
  assumes "unat sz \<le> 2 ^ 63"
  shows "unat sz \<le> unat (align_to sz sizeof_ptr)"
    and "unat (align_to sz sizeof_ptr) < unat sz + 8"
    and "8 dvd unat (align_to sz sizeof_ptr)"
proof -
  have e: "unat (align_to sz (2 ^ 3)) = unat sz + (2 ^ 3 - unat sz mod 2 ^ 3) mod 2 ^ 3"
    using assms by (intro unat_align_to_pow) simp_all
  have s: "sizeof_ptr = 2 ^ 3" by (simp add: sizeof_ptr_def)
  show "unat sz \<le> unat (align_to sz sizeof_ptr)" unfolding s e by simp
  show "unat (align_to sz sizeof_ptr) < unat sz + 8"
    unfolding s e using align_round_up(2) [of 8 "unat sz"] by simp
  show "8 dvd unat (align_to sz sizeof_ptr)"
    unfolding s e using align_round_up(3) [of 8 "unat sz"] by simp
qed

lemma align_to_page:
  assumes "unat sz \<le> 2 ^ 63 + 8"
  shows "unat sz \<le> unat (align_to sz COMT_PAGE_SIZE)"
    and "unat (align_to sz COMT_PAGE_SIZE) < unat sz + 4096"
    and "4096 dvd unat (align_to sz COMT_PAGE_SIZE)"
proof -
  have e: "unat (align_to sz (2 ^ 12)) = unat sz + (2 ^ 12 - unat sz mod 2 ^ 12) mod 2 ^ 12"
    using assms by (intro unat_align_to_pow) simp_all
  have s: "COMT_PAGE_SIZE = 2 ^ 12" by (simp add: COMT_PAGE_SIZE_def)
  show "unat sz \<le> unat (align_to sz COMT_PAGE_SIZE)" unfolding s e by simp
  show "unat (align_to sz COMT_PAGE_SIZE) < unat sz + 4096"
    unfolding s e using align_round_up(2) [of 4096 "unat sz"] by simp
  show "4096 dvd unat (align_to sz COMT_PAGE_SIZE)"
    unfolding s e using align_round_up(3) [of 4096 "unat sz"] by simp
qed

lemma align_to_idem:
  assumes "unat sz \<le> 2 ^ 63 + 8"
  shows "align_to (align_to sz COMT_PAGE_SIZE) COMT_PAGE_SIZE = align_to sz COMT_PAGE_SIZE"
proof -
  let ?y = "align_to sz COMT_PAGE_SIZE"
  have s: "COMT_PAGE_SIZE = 2 ^ 12" by (simp add: COMT_PAGE_SIZE_def)
  have "unat ?y < unat sz + 4096" using align_to_page(2) [OF assms] .
  then have b: "unat ?y + 2 ^ 12 \<le> 2 ^ 64" using assms by simp
  have d: "unat ?y mod 2 ^ 12 = 0" using align_to_page(3) [OF assms] by simp
  have "unat (align_to ?y (2 ^ 12)) = unat ?y + (2 ^ 12 - unat ?y mod 2 ^ 12) mod 2 ^ 12"
    using b by (intro unat_align_to_pow) simp_all
  then have "unat (align_to ?y (2 ^ 12)) = unat ?y" using d by simp
  then show ?thesis unfolding s by (simp add: word_unat_eq_iff)
qed

subsection \<open>Chains of regions\<close>

lemma free_loop_chain:
  assumes "chain (regions a) r rs" and "rs \<noteq> [] \<longrightarrow> head a \<noteq> 0"
  shows "free_loop a r =
           Some (Inr (a\<lparr> os := (os a)\<lparr> unmapped := unmapped (os a) @
             replicate (length rs)
               (data (regions a (head a)), size_r (regions a (head a))) \<rparr> \<rparr>))"
  using assms
proof (induction rs arbitrary: a r)
  case Nil
  then have "r = 0" by simp
  then show ?case by (subst free_loop.simps) simp
next
  case (Cons x rs)
  let ?p = "(data (regions a (head a)), size_r (regions a (head a)))"
  let ?a' = "a\<lparr> os := COMT_DEALLOC_PAGE (fst ?p) (snd ?p) (os a) \<rparr>"
  have r: "r \<noteq> 0" "r = x" and ch: "chain (regions a) (next_r (regions a r)) rs"
    using Cons.prems(1) by auto
  have h: "head a \<noteq> 0" using Cons.prems(2) by simp
  have "free_loop a r = free_loop ?a' (next_r (regions a r))"
    using r h by (subst free_loop.simps) simp
  also have "\<dots> = Some (Inr (?a'\<lparr> os := (os ?a')\<lparr> unmapped := unmapped (os ?a') @
             replicate (length rs) ?p \<rparr> \<rparr>))"
    using Cons.IH [of ?a' "next_r (regions a r)"] ch h by simp
  also have "\<dots> = Some (Inr (a\<lparr> os := (os a)\<lparr> unmapped := unmapped (os a) @
             replicate (length (x # rs)) ?p \<rparr> \<rparr>))"
    by (simp add: COMT_DEALLOC_PAGE_def replicate_append_same)
  finally show ?case .
qed

lemma alloc_region_loop_no_room:
  assumes "p \<noteq> 0"
    and "\<not> sizeof_Region \<le> size_r (regions a p) - off (regions a p)"
    and "chain (regions a) (head a) rs"
  shows "alloc_region_loop a p sz = Some (Inl NullDeref)"
  using assms
proof (induction rs arbitrary: a)
  case Nil
  then have "head a = 0" by simp
  then show ?case using Nil.prems(1,2) by (subst alloc_region_loop.simps) simp
next
  case (Cons x rs)
  let ?a' = "a\<lparr> head := next_r (regions a (head a)) \<rparr>"
  have h: "head a \<noteq> 0" "head a = x" and ch: "chain (regions a) (next_r (regions a x)) rs"
    using Cons.prems(3) by auto
  have "alloc_region_loop a p sz = alloc_region_loop ?a' p sz"
    using h Cons.prems(1,2) by (subst alloc_region_loop.simps) simp
  moreover have "alloc_region_loop ?a' p sz = Some (Inl NullDeref)"
    using Cons.IH [of ?a'] Cons.prems(1,2) ch h by simp
  ultimately show ?case by simp
qed

lemma fits_iff:
  assumes "off (m r) \<le> size_r (m r)"
  shows "sz \<le> size_r (m r) - off (m r) \<longleftrightarrow> fits m sz r"
proof -
  have "unat (size_r (m r) - off (m r)) = unat (size_r (m r)) - unat (off (m r))"
    using assms by (simp add: unat_sub)
  then show ?thesis by (simp add: fits_def remaining_def word_le_nat_alt)
qed

lemma raw_alloc_loop_scan:
  assumes "chain (regions a) p rs" and "offs_ok (regions a) rs"
  shows "raw_alloc_loop a p sz =
     (case find (fits (regions a) sz) rs of
        Some r \<Rightarrow>
          Some (Inr (data (regions a r) + off (regions a r),
            a\<lparr> regions := (regions a)(r := (regions a r)\<lparr> off := off (regions a r) + sz \<rparr>) \<rparr>))
      | None \<Rightarrow> raw_alloc_new a sz)"
  using assms
proof (induction rs arbitrary: p)
  case Nil
  then have "p = 0" by simp
  then show ?case by (subst raw_alloc_loop.simps) simp
next
  case (Cons x rs)
  have p: "p \<noteq> 0" "p = x" and ch: "chain (regions a) (next_r (regions a x)) rs"
    using Cons.prems(1) by auto
  have ok: "off (regions a x) \<le> size_r (regions a x)" and oks: "offs_ok (regions a) rs"
    using Cons.prems(2) by (simp_all add: offs_ok_def)
  show ?case
  proof (cases "fits (regions a) sz x")
    case True
    then have "sz \<le> size_r (regions a x) - off (regions a x)"
      using fits_iff [of "regions a" x sz] ok by simp
    then show ?thesis using p True by (subst raw_alloc_loop.simps) simp
  next
    case False
    then have "\<not> sz \<le> size_r (regions a x) - off (regions a x)"
      using fits_iff [of "regions a" x sz] ok by simp
    then have "raw_alloc_loop a p sz = raw_alloc_loop a (next_r (regions a x)) sz"
      using p by (subst raw_alloc_loop.simps) simp
    then show ?thesis using Cons.IH [OF ch oks] False by simp
  qed
qed

lemma alloc_region_ok:
  assumes "pool_has_room a" and "os_grants a" and "align_to rsz COMT_PAGE_SIZE \<noteq> 0"
  shows "\<exists>a1 d. alloc_region a rsz = Some (Inr (next_descriptor a, a1)) \<and> head a1 = head a \<and>
           regions a1 (next_descriptor a) = mk_region 0 d (align_to rsz COMT_PAGE_SIZE) 0 \<and>
           (\<forall>r. r \<noteq> next_descriptor a \<and> r \<noteq> region_pool a1 \<longrightarrow>
                regions a1 r = regions a r) \<and>
           unmapped (os a1) = unmapped (os a)"
proof (cases "region_pool a = 0")
  case True
  have g: "mmap_next (os a) + COMT_PAGE_SIZE \<noteq> - 1" "mmap_next (os a) \<noteq> - 1"
    "brk (os a) \<noteq> - 1"
    using assms(2) by (simp_all add: os_grants_def)
  have p: "COMT_PAGE_SIZE \<noteq> 0" by (simp add: COMT_PAGE_SIZE_def)
  have "alloc_region a rsz = Some (alloc_region_new_page a (align_to rsz COMT_PAGE_SIZE))"
    unfolding alloc_region_def using True by (subst alloc_region_loop.simps) simp
  then show ?thesis
    using g p True assms(3)
    by (simp add: alloc_region_new_page_def init_region_def COMT_ALLOC_PAGE_def
        COMT_ALLOC_SMOL_def mk_region_def next_descriptor_def Let_def)
next
  case False
  let ?P = "region_pool a"
  let ?h = "data (regions a ?P) + off (regions a ?P)"
  have room: "sizeof_Region \<le> size_r (regions a ?P) - off (regions a ?P)" and ne: "?h \<noteq> ?P"
    using assms(1) False by (simp_all add: pool_has_room_def)
  have g: "mmap_next (os a) \<noteq> - 1" using assms(2) by (simp add: os_grants_def)
  have "alloc_region a rsz =
     (case init_region a ?h (align_to rsz COMT_PAGE_SIZE) of
        Inl e \<Rightarrow> Some (Inl e)
      | Inr a1 \<Rightarrow>
          Some (Inr (?h, a1\<lparr> regions := (regions a1)(?P :=
                 (regions a1 ?P)\<lparr> off := off (regions a1 ?P) +
                                     align_to sizeof_Region sizeof_ptr \<rparr>) \<rparr>)))"
    unfolding alloc_region_def using False room
    by (subst alloc_region_loop.simps) (simp add: Let_def)
  then show ?thesis
    using g ne False assms(3)
    by (simp add: init_region_def COMT_ALLOC_PAGE_def mk_region_def next_descriptor_def Let_def)
qed

lemma raw_alloc_new_ok:
  assumes "pool_has_room a" and "os_grants a" and "unat sz \<le> 2 ^ 63 + 8" and "sz \<noteq> 0"
  shows "\<exists>a' d. raw_alloc_new a sz = Some (Inr (d, a')) \<and> head a' = next_descriptor a \<and>
           regions a' (head a') = mk_region (head a) d (align_to sz COMT_PAGE_SIZE) sz \<and>
           (\<forall>r. r \<noteq> head a' \<and> r \<noteq> region_pool a' \<longrightarrow> regions a' r = regions a r) \<and>
           unmapped (os a') = unmapped (os a)"
proof -
  let ?h = "next_descriptor a"
  have idem: "align_to (align_to sz COMT_PAGE_SIZE) COMT_PAGE_SIZE = align_to sz COMT_PAGE_SIZE"
    using assms(3) by (rule align_to_idem)
  have "0 < unat sz" using assms(4) by (simp add: unat_gt_0)
  then have "0 < unat (align_to sz COMT_PAGE_SIZE)"
    using align_to_page(1) [OF assms(3)] by simp
  then have nz: "align_to (align_to sz COMT_PAGE_SIZE) COMT_PAGE_SIZE \<noteq> 0"
    unfolding idem by (simp add: unat_gt_0)
  obtain a1 d where ar: "alloc_region a (align_to sz COMT_PAGE_SIZE) = Some (Inr (?h, a1))"
    and hd: "head a1 = head a"
    and new: "regions a1 ?h =
                mk_region 0 d (align_to (align_to sz COMT_PAGE_SIZE) COMT_PAGE_SIZE) 0"
    and frame: "\<forall>r. r \<noteq> ?h \<and> r \<noteq> region_pool a1 \<longrightarrow> regions a1 r = regions a r"
    and um: "unmapped (os a1) = unmapped (os a)"
    using alloc_region_ok [OF assms(1,2) nz] by blast
  let ?a' = "a1\<lparr> regions := (regions a1)(?h := mk_region (head a) d (align_to sz COMT_PAGE_SIZE) sz),
                  head := ?h \<rparr>"
  have "raw_alloc_new a sz = Some (Inr (d, ?a'))"
    using ar hd new idem by (simp add: raw_alloc_new_def mk_region_def Let_def)
  moreover have "head ?a' = ?h" by simp
  moreover have "regions ?a' (head ?a') = mk_region (head a) d (align_to sz COMT_PAGE_SIZE) sz"
    by simp
  moreover have "\<forall>r. r \<noteq> head ?a' \<and> r \<noteq> region_pool ?a' \<longrightarrow> regions ?a' r = regions a r"
    using frame by simp
  moreover have "unmapped (os ?a') = unmapped (os a)" using um by simp
  ultimately show ?thesis by blast
qed

text \<open>
  The arena's \<open>raw_alloc\<close> on a finite \<open>head\<close> chain whose regions keep their offset
  within their size, for a request of at most \<open>2 ^ 63\<close> bytes: the request is rounded up
  to a multiple of 8 and served from the first region, in chain order, in which it fits.
  When it fits in none, the request is not 0 and \<open>alloc_region\<close> can hand out a
  descriptor, the new region is the new \<open>head\<close>, points to the old \<open>head\<close>, and has the
  request rounded up to a multiple of 4096 as its size.
\<close>

lemma raw_alloc_first_fit:
  assumes "chain (regions a) (head a) rs" and "offs_ok (regions a) rs"
    and "unat sz0 \<le> 2 ^ 63"
  shows "unat sz0 \<le> unat (align_to sz0 sizeof_ptr) \<and>
         unat (align_to sz0 sizeof_ptr) < unat sz0 + 8 \<and>
         8 dvd unat (align_to sz0 sizeof_ptr) \<and>
         (case find (fits (regions a) (align_to sz0 sizeof_ptr)) rs of
            Some r \<Rightarrow>
              ArenaAllocator_raw_alloc a sz0 =
                Some (Inr (data (regions a r) + off (regions a r),
                  a\<lparr> regions := (regions a)(r := (regions a r)
                         \<lparr> off := off (regions a r) + align_to sz0 sizeof_ptr \<rparr>) \<rparr>))
          | None \<Rightarrow>
              pool_has_room a \<and> os_grants a \<and> sz0 \<noteq> 0 \<longrightarrow>
              (\<exists>a' d. ArenaAllocator_raw_alloc a sz0 = Some (Inr (d, a')) \<and>
                 head a' = next_descriptor a \<and>
                 regions a' (head a') =
                   mk_region (head a) d
                     (align_to (align_to sz0 sizeof_ptr) COMT_PAGE_SIZE)
                     (align_to sz0 sizeof_ptr) \<and>
                 unat (align_to sz0 sizeof_ptr) \<le> unat (size_r (regions a' (head a'))) \<and>
                 4096 dvd unat (size_r (regions a' (head a'))) \<and>
                 (\<forall>r. r \<noteq> head a' \<and> r \<noteq> region_pool a' \<longrightarrow> regions a' r = regions a r) \<and>
                 unmapped (os a') = unmapped (os a)))"
proof -
  let ?sz = "align_to sz0 sizeof_ptr"
  have al: "unat sz0 \<le> unat ?sz" "unat ?sz < unat sz0 + 8" "8 dvd unat ?sz"
    using align_to_ptr [OF assms(3)] by simp_all
  then have b: "unat ?sz \<le> 2 ^ 63 + 8" using assms(3) by simp
  have scan: "ArenaAllocator_raw_alloc a sz0 =
     (case find (fits (regions a) ?sz) rs of
        Some r \<Rightarrow>
          Some (Inr (data (regions a r) + off (regions a r),
            a\<lparr> regions := (regions a)(r := (regions a r)\<lparr> off := off (regions a r) + ?sz \<rparr>) \<rparr>))
      | None \<Rightarrow> raw_alloc_new a ?sz)"
    unfolding ArenaAllocator_raw_alloc_def using assms(1,2) by (rule raw_alloc_loop_scan)
  show ?thesis
  proof (cases "find (fits (regions a) ?sz) rs")
    case (Some r)
    then show ?thesis using al scan by simp
  next
    case None
    have "\<exists>a' d. ArenaAllocator_raw_alloc a sz0 = Some (Inr (d, a')) \<and>
                 head a' = next_descriptor a \<and>
                 regions a' (head a') =
                   mk_region (head a) d (align_to ?sz COMT_PAGE_SIZE) ?sz \<and>
                 unat ?sz \<le> unat (size_r (regions a' (head a'))) \<and>
                 4096 dvd unat (size_r (regions a' (head a'))) \<and>
                 (\<forall>r. r \<noteq> head a' \<and> r \<noteq> region_pool a' \<longrightarrow> regions a' r = regions a r) \<and>
                 unmapped (os a') = unmapped (os a)"
      if pr: "pool_has_room a" and og: "os_grants a" and nz: "sz0 \<noteq> 0"
    proof -
      have "0 < unat sz0" using nz by (simp add: unat_gt_0)
      then have "0 < unat ?sz" using al(1) by simp
      then have nz': "?sz \<noteq> 0" by (simp add: unat_gt_0)
      obtain a' d where r: "raw_alloc_new a ?sz = Some (Inr (d, a'))"
        and h: "head a' = next_descriptor a"
        and n: "regions a' (head a') = mk_region (head a) d (align_to ?sz COMT_PAGE_SIZE) ?sz"
        and f: "\<forall>r. r \<noteq> head a' \<and> r \<noteq> region_pool a' \<longrightarrow> regions a' r = regions a r"
        and u: "unmapped (os a') = unmapped (os a)"
        using raw_alloc_new_ok [OF pr og b nz'] by blast
      have s: "size_r (regions a' (head a')) = align_to ?sz COMT_PAGE_SIZE"
        using n by (simp add: mk_region_def)
      have "unat ?sz \<le> unat (size_r (regions a' (head a')))"
        and "4096 dvd unat (size_r (regions a' (head a')))"
        unfolding s using align_to_page [OF b] by simp_all
      then show ?thesis using r h n f u scan None by auto
    qed
    then show ?thesis using al None by simp
  qed
qed

text \<open>A request of 0 bytes on an arena without regions maps 0 bytes and fails the assertion.\<close>

lemma raw_alloc_zero_on_empty_arena:
  assumes "head a = 0" and "pool_has_room a" and "os_grants a"
  shows "ArenaAllocator_raw_alloc a 0 = Some (Inl AssertFailed)"
proof -
  have z: "align_to 0 sizeof_ptr = 0" "align_to 0 COMT_PAGE_SIZE = 0"
    by (simp_all add: align_to_def sizeof_ptr_def COMT_PAGE_SIZE_def)
  have g: "mmap_next (os a) \<noteq> - 1" "brk (os a) \<noteq> - 1"
    using assms(3) by (simp_all add: os_grants_def)
  have p: "COMT_PAGE_SIZE \<noteq> 0" by (simp add: COMT_PAGE_SIZE_def)
  have "alloc_region a 0 = Some (Inl AssertFailed)"
  proof (cases "region_pool a = 0")
    case True
    have "alloc_region a 0 = Some (alloc_region_new_page a 0)"
      unfolding alloc_region_def z using True by (subst alloc_region_loop.simps) simp
    then show ?thesis
      using g p
      by (simp add: alloc_region_new_page_def init_region_def COMT_ALLOC_PAGE_def
          COMT_ALLOC_SMOL_def Let_def)
  next
    case False
    then have "sizeof_Region \<le> size_r (regions a (region_pool a)) - off (regions a (region_pool a))"
      using assms(2) by (simp add: pool_has_room_def)
    then show ?thesis
      unfolding alloc_region_def z using False
      by (subst alloc_region_loop.simps)
         (simp add: init_region_def COMT_ALLOC_PAGE_def Let_def)
  qed
  moreover have "ArenaAllocator_raw_alloc a 0 = raw_alloc_new a 0"
    unfolding ArenaAllocator_raw_alloc_def z using assms(1)
    by (subst raw_alloc_loop.simps) simp
  ultimately show ?thesis by (simp add: raw_alloc_new_def z)
qed

text \<open>
  One region of 4096 bytes and a request of 5000 bytes, with room in the metadata page:
  the new region has 8192 bytes and stands before the old one.
\<close>

lemma raw_alloc_scenario:
  "(case ArenaAllocator_raw_alloc arena_one 5000 of
      Some (Inr (p, a')) \<Rightarrow>
        p = 0x40000 \<and> head a' = 0x20020 \<and>
        regions a' 0x20020 = mk_region 0x20000 0x40000 8192 5000 \<and>
        regions a' 0x20000 = regions arena_one 0x20000
    | _ \<Rightarrow> False) \<and>
   find (fits (regions arena_one) (align_to 5000 sizeof_ptr)) [0x20000] = None \<and>
   (\<exists>a' d. ArenaAllocator_raw_alloc arena_one 5000 = Some (Inr (d, a')) \<and>
      head a' = next_descriptor arena_one \<and>
      regions a' (head a') =
        mk_region (head arena_one) d
          (align_to (align_to 5000 sizeof_ptr) COMT_PAGE_SIZE) (align_to 5000 sizeof_ptr) \<and>
      unat (align_to 5000 sizeof_ptr :: u64) \<le> unat (size_r (regions a' (head a'))) \<and>
      4096 dvd unat (size_r (regions a' (head a'))) \<and>
      (\<forall>r. r \<noteq> head a' \<and> r \<noteq> region_pool a' \<longrightarrow> regions a' r = regions arena_one r) \<and>
      unmapped (os a') = unmapped (os arena_one))"
proof -
  have ev: "case ArenaAllocator_raw_alloc arena_one 5000 of
      Some (Inr (p, a')) \<Rightarrow>
        p = 0x40000 \<and> head a' = 0x20020 \<and>
        regions a' 0x20020 = mk_region 0x20000 0x40000 8192 5000 \<and>
        regions a' 0x20000 = regions arena_one 0x20000
    | _ \<Rightarrow> False"
    by code_simp
  have al: "align_to 5000 sizeof_ptr = 5000"
    by (simp add: align_to_def sizeof_ptr_def)
  have ch: "chain (regions arena_one) (head arena_one) [0x20000]"
    by (simp add: arena_one_def mk_region_def)
  have ok: "offs_ok (regions arena_one) [0x20000]"
    by (simp add: offs_ok_def arena_one_def mk_region_def)
  have sz: "unat (5000 :: u64) \<le> 2 ^ 63" by simp
  have nf: "find (fits (regions arena_one) (align_to 5000 sizeof_ptr)) [0x20000] = None"
    by (simp add: al fits_def remaining_def arena_one_def mk_region_def)
  have pr: "pool_has_room arena_one"
    by (simp add: pool_has_room_def arena_one_def mk_region_def sizeof_Region_def)
  have og: "os_grants arena_one"
    by (simp add: os_grants_def arena_one_def os0_def COMT_PAGE_SIZE_def)
  have nz: "(5000 :: u64) \<noteq> 0" by simp
  show ?thesis
    using ev nf pr og nz raw_alloc_first_fit [OF ch ok sz] by simp
qed

text \<open>With the metadata page used up, a request that fits in no region traps.\<close>

lemma raw_alloc_no_room:
  assumes "chain (regions a) (head a) rs" and "offs_ok (regions a) rs"
    and "find (fits (regions a) (align_to sz0 sizeof_ptr)) rs = None"
    and "region_pool a \<noteq> 0"
    and "\<not> sizeof_Region \<le> size_r (regions a (region_pool a)) - off (regions a (region_pool a))"
  shows "ArenaAllocator_raw_alloc a sz0 = Some (Inl NullDeref)"
proof -
  let ?sz = "align_to sz0 sizeof_ptr"
  have "ArenaAllocator_raw_alloc a sz0 = raw_alloc_new a ?sz"
    unfolding ArenaAllocator_raw_alloc_def
    using raw_alloc_loop_scan [OF assms(1,2), of ?sz] assms(3) by simp
  moreover have "alloc_region a (align_to ?sz COMT_PAGE_SIZE) = Some (Inl NullDeref)"
    unfolding alloc_region_def using assms(4,5,1) by (rule alloc_region_loop_no_room)
  ultimately show ?thesis by (simp add: raw_alloc_new_def)
qed

subsection \<open>The scratch allocator\<close>

lemma dealloc_rewinds_iff:
  "FixedBufferAllocator_raw_dealloc a ptr sz =
     (if ptr = buffer a + buffer_off a then a\<lparr> buffer_off := buffer_off a - sz \<rparr> else a)"
  by (simp add: FixedBufferAllocator_raw_dealloc_def)

lemma dealloc_of_last_alloc:
  assumes "buffer a \<noteq> 0" and "align_to sz sizeof_ptr \<noteq> 0"
    and "align_to sz sizeof_ptr \<le> buffer_size a"
  shows "(case FixedBufferAllocator_raw_alloc a s sz of
            (p, a', s') \<Rightarrow> FixedBufferAllocator_raw_dealloc a' p n = a')"
  using assms
  by (simp add: FixedBufferAllocator_raw_alloc_def FixedBufferAllocator_raw_dealloc_def Let_def)

lemma bump_inside:
  fixes bs bo sz :: u64
  assumes "bo \<le> bs" and "\<not> bs - bo < sz"
  shows "bo + sz \<le> bs"
proof -
  have d: "unat (bs - bo) = unat bs - unat bo" using assms(1) by (simp add: unat_sub)
  have le: "unat bo \<le> unat bs" using assms(1) by (simp add: word_le_nat_alt)
  have "unat sz \<le> unat (bs - bo)" using assms(2) by (simp add: word_less_nat_alt)
  then have s: "unat bo + unat sz \<le> unat bs" using d le by arith
  moreover have "unat bs < 2 ^ 64" using unsigned_less [of bs] by simp
  ultimately have "unat (bo + sz) = unat bo + unat sz"
    using unat_add_lem [of bo sz] by simp
  then show ?thesis using s by (simp add: word_le_nat_alt)
qed

lemma serve_keeps_cursor_inside:
  fixes a1 :: FixedBufferAllocator
  assumes "buffer_off a1 \<le> buffer_size a1"
  shows "buffer_off
           (snd (if sz > buffer_size a1 then (0 :: u64, a1)
                 else if buffer_size a1 - buffer_off a1 < sz then
                   (buffer a1, a1\<lparr> buffer_off := sz \<rparr>)
                 else (buffer a1 + buffer_off a1, a1\<lparr> buffer_off := buffer_off a1 + sz \<rparr>)))
         \<le> buffer_size a1"
  using assms by (simp add: bump_inside not_less)

lemma raw_alloc_keeps_cursor_inside:
  assumes "buffer a = 0 \<or> buffer_off a \<le> buffer_size a"
  shows "(case FixedBufferAllocator_raw_alloc a s sz of
            (p, a', s') \<Rightarrow> buffer_off a' \<le> buffer_size a')"
proof (cases "buffer a = 0")
  case False
  then have "buffer_off a \<le> buffer_size a" using assms by simp
  then show ?thesis
    using False
    by (simp add: FixedBufferAllocator_raw_alloc_def Let_def bump_inside not_less)
next
  case True
  obtain p s' where m: "COMT_ALLOC_PAGE
      (align_to (comt_max (align_to sz sizeof_ptr) (COMT_PAGE_SIZE * DEFAULT_PAGE_COUNT))
         COMT_PAGE_SIZE) s = (p, s')"
    by (cases "COMT_ALLOC_PAGE
      (align_to (comt_max (align_to sz sizeof_ptr) (COMT_PAGE_SIZE * DEFAULT_PAGE_COUNT))
         COMT_PAGE_SIZE) s")
  show ?thesis
    using True m
    by (simp add: FixedBufferAllocator_raw_alloc_def Let_def bump_inside not_less)
qed

section \<open>Claims about the hash map and the hash set\<close>

lemma zeroing_zero_allocator: "zeroing zero_allocator"
  by (simp add: zeroing_def zero_allocator_def COMT_TAB_IS_FREE_def COMT_TAB_IS_OCCUPIED_def)

text \<open>
  Tables in zero-filled memory. Start from a table that \<open>Table::alloc\<close> built with a
  positive capacity and run any sequence of \<open>put\<close> calls, every block the allocator
  hands out having its occupancy bits clear. Every call returns. If the pair \<open>(k, v)\<close>
  was put at some point and no later call put a key equal to \<open>k\<close>, then afterwards
  \<open>get\<close> returns true with value \<open>v\<close> and \<open>has\<close> returns true, however many rehashes
  happened in between. Two levels of \<open>put\<close> nesting are enough.
\<close>

lemma put_then_get:
  assumes "zeroing a" and "0 < c"
    and "kvs = xs @ (k, v) # ys" and "k \<notin> fst ` set ys"
  shows "\<exists>t. put_all (Suc (Suc d)) H (Table_alloc a c) kvs = Some (Inr t) \<and>
             get H t k = Some (Inr (Some v)) \<and> has H t k = Some (Inr True)"
proof -
  let ?t0 = "Table_alloc a c"
  have i0: "table_inv H ?t0" using assms(1,2) by (rule table_inv_Table_alloc)
  have z0: "zeroing (allocator ?t0)" using assms(1) by (simp add: Table_alloc_def)
  obtain t where run: "put_all (Suc (Suc d)) H ?t0 kvs = Some (Inr t)" and it: "table_inv H t"
    and ent: "\<forall>k v. entry t k v \<longleftrightarrow>
                (case map_of (rev kvs) k of Some v' \<Rightarrow> v = v' | None \<Rightarrow> entry ?t0 k v)"
    using put_all_spec [OF i0 z0, of d kvs] by blast
  have "map_of (rev kvs) k = Some v"
    using assms(3,4) by (rule map_of_last_put)
  then have "entry t k v" using ent by simp
  then show ?thesis
    using run entry_get_has [OF it] by blast
qed

text \<open>
  The theorem at work on a table of capacity 1 that is rehashed twice (to 6 and to 21
  slots) after key 5 went in.
\<close>

lemma put_then_get_example:
  "rehashes (Suc (Suc 0)) Hash_size_t (Table_alloc zero_allocator 1)
     [(5, 50), (6, 60), (7, 70), (8, 80), (9, 90), (10, 100)] = 2 \<and>
   (\<exists>t. put_all (Suc (Suc 0)) Hash_size_t (Table_alloc zero_allocator 1)
          [(5, 50), (6, 60), (7, 70), (8, 80), (9, 90), (10, 100)] = Some (Inr t) \<and>
        get Hash_size_t t 5 = Some (Inr (Some 50)) \<and> has Hash_size_t t 5 = Some (Inr True))"
proof -
  have r: "rehashes (Suc (Suc 0)) Hash_size_t (Table_alloc zero_allocator 1)
     [(5, 50), (6, 60), (7, 70), (8, 80), (9, 90), (10, 100)] = 2"
    by code_simp
  have "(5::u64) \<notin> fst ` set [(6, 60::u64), (7, 70), (8, 80), (9, 90), (10, 100)]"
    by simp
  then show ?thesis
    using r put_then_get [OF zeroing_zero_allocator, of 1
        "[(5, 50), (6, 60), (7, 70), (8, 80), (9, 90), (10, 100)]" "[]" 5 50
        "[(6, 60), (7, 70), (8, 80), (9, 90), (10, 100)]" 0 Hash_size_t]
    by simp
qed

text \<open>
  Claim C1 says that after any sequence of \<open>put\<close> calls every key is found with the
  value last put for it, also across rehashes. The rehash inside \<open>put\<close> takes its new
  store from \<open>Table::alloc\<close>, which leaves the occupancy bytes as the allocator hands
  them out. In memory that was used before (an arena after \<open>reset()\<close>), a slot of the
  new store can arrive marked occupied, and the next rehash reinserts it like a slot that
  was put. First run: the table of capacity 1 starts in zero-filled memory and its
  6-slot store arrives with slot 3 marked (key 0, value 99); key 0 is put once, with
  value 1, and after the second rehash \<open>get(0)\<close> yields 99. Second run: the same with the
  stale slot in the first store of a table of capacity 4, after one rehash.
\<close>

theorem put_in_reused_memory:
  "(case put_all (Suc (Suc 0)) Hash_size_t (Table_alloc (stale_allocator 6 3 0) 1)
           [(0, 1), (1, 10), (2, 20), (4, 40), (5, 50), (6, 60)] of
      Some (Inr t) \<Rightarrow> get Hash_size_t t 0 = Some (Inr (Some 99))
    | _ \<Rightarrow> False) \<and>
   (case put_all (Suc (Suc 0)) Hash_size_t (Table_alloc (stale_allocator 4 3 0) 4)
           [(0, 1), (1, 10), (2, 20), (5, 50)] of
      Some (Inr t) \<Rightarrow> get Hash_size_t t 0 = Some (Inr (Some 99))
    | _ \<Rightarrow> False)"
  by code_simp

lemma keyset_put_all:
  assumes "zeroing a" "0 < c"
  shows "\<exists>t. put_all (Suc (Suc d)) H (Table_alloc a c) kvs = Some (Inr t) \<and> table_inv H t \<and>
             allocator t = a \<and> keyset t = fst ` set kvs"
proof -
  let ?t0 = "Table_alloc a c"
  have i0: "table_inv H ?t0" using assms by (rule table_inv_Table_alloc)
  have z0: "zeroing (allocator ?t0)" using assms(1) by (simp add: Table_alloc_def)
  obtain t where run: "put_all (Suc (Suc d)) H ?t0 kvs = Some (Inr t)" and it: "table_inv H t"
    and al: "allocator t = allocator ?t0"
    and ent: "\<forall>k v. entry t k v \<longleftrightarrow>
                (case map_of (rev kvs) k of Some v' \<Rightarrow> v = v' | None \<Rightarrow> entry ?t0 k v)"
    using put_all_spec [OF i0 z0, of d kvs] by blast
  have none: "\<And>k v. \<not> entry ?t0 k v"
    using holds_Table_alloc [OF assms(1)] by (simp add: entry_def)
  have "k \<in> keyset t \<longleftrightarrow> k \<in> fst ` set kvs" for k
  proof (cases "map_of (rev kvs) k")
    case None
    then have "k \<notin> fst ` set kvs" by (simp add: map_of_eq_None_iff)
    then show ?thesis using ent none None by (simp add: keyset_def)
  next
    case (Some v)
    then have "k \<in> fst ` set kvs"
      using map_of_eq_None_iff [of "rev kvs" k] by auto
    then show ?thesis using ent Some by (auto simp: keyset_def)
  qed
  then have "keyset t = fst ` set kvs" by blast
  then show ?thesis using run it al by (simp add: Table_alloc_def)
qed

text \<open>
  The gate in zero-filled memory. Take the table that any sequence of \<open>put\<close> calls
  produced from a table built in zero-filled memory, and call \<open>put\<close> once more. The gate
  is open exactly when \<open>count / capacity \<ge> 0.70\<close>. When it is open, the reinsertion of
  the occupied slots into a new store of capacity \<open>(capacity + 1) * 3\<close> returns a table
  \<open>nt\<close> in which \<open>get\<close> finds every occupied slot of the old store with its value, whose
  \<open>count\<close> is the number of distinct keys ever put, and whose load is below 70; every
  table into which a slot is reinserted has a load below 70, so no reinsertion opens the
  gate again; and the call goes on to probe \<open>nt\<close>. When the gate is closed the call
  probes the table itself.
\<close>

lemma rehash_at_gate:
  assumes "zeroing a" and "0 < c"
  shows "\<exists>t. put_all (Suc (Suc d)) H (Table_alloc a c) kvs = Some (Inr t) \<and>
           (70 \<le> load_percentage t \<longleftrightarrow> 7 * capacity t \<le> 10 * count t) \<and>
           (if 70 \<le> load_percentage t then
              \<exists>nt. reinsert (Suc e) H t [0..<capacity t]
                     (Table_alloc (allocator t) ((capacity t + 1) * 3)) = Some (Inr nt) \<and>
                   capacity nt = (capacity t + 1) * 3 \<and>
                   (\<forall>i<capacity t. COMT_TAB_IS_OCCUPIED (meta t i) \<longrightarrow>
                      get H nt (keys t i) = Some (Inr (Some (values_t t i)))) \<and>
                   count nt = card (fst ` set kvs) \<and>
                   10 * count nt < 7 * capacity nt \<and> load_percentage nt < 70 \<and>
                   (\<forall>n<capacity t. \<exists>nt'.
                      reinsert (Suc e) H t [0..<n]
                        (Table_alloc (allocator t) ((capacity t + 1) * 3)) = Some (Inr nt') \<and>
                      load_percentage nt' < 70) \<and>
                   put (Suc (Suc e)) H t k v = put_loop nt k v (unat (H k) mod capacity nt)
            else put (Suc (Suc e)) H t k v = put_loop t k v (unat (H k) mod capacity t))"
proof -
  obtain t where run: "put_all (Suc (Suc d)) H (Table_alloc a c) kvs = Some (Inr t)"
    and it: "table_inv H t" and al: "allocator t = a" and ks: "keyset t = fst ` set kvs"
    using keyset_put_all [OF assms, of d H kvs] by blast
  have z: "zeroing (allocator t)" using al assms(1) by simp
  have c: "0 < capacity t" using it by (simp add: table_inv_def)
  let ?G = "COMT_TABLE_GROWTH_FACTOR (capacity t)"
  let ?new = "Table_alloc (allocator t) ?G"
  have G: "?G = (capacity t + 1) * 3" by (simp add: COMT_TABLE_GROWTH_FACTOR_def)
  have gate: "70 \<le> load_percentage t \<longleftrightarrow> 7 * capacity t \<le> 10 * count t"
    using load_below_iff [OF c] by auto
  have branch: "if 70 \<le> load_percentage t then
              \<exists>nt. reinsert (Suc e) H t [0..<capacity t] ?new = Some (Inr nt) \<and>
                   capacity nt = ?G \<and>
                   (\<forall>i<capacity t. COMT_TAB_IS_OCCUPIED (meta t i) \<longrightarrow>
                      get H nt (keys t i) = Some (Inr (Some (values_t t i)))) \<and>
                   count nt = card (fst ` set kvs) \<and>
                   10 * count nt < 7 * capacity nt \<and> load_percentage nt < 70 \<and>
                   (\<forall>n<capacity t. \<exists>nt'.
                      reinsert (Suc e) H t [0..<n] ?new = Some (Inr nt') \<and>
                      load_percentage nt' < 70) \<and>
                   put (Suc (Suc e)) H t k v = put_loop nt k v (unat (H k) mod capacity nt)
            else put (Suc (Suc e)) H t k v = put_loop t k v (unat (H k) mod capacity t)"
  proof (cases "70 \<le> load_percentage t")
    case False
    then show ?thesis using c by simp
  next
    case True
    obtain nt where re: "reinsert (Suc e) H t [0..<capacity t] ?new = Some (Inr nt)"
      and invn: "table_inv H nt" and cap: "capacity nt = ?G"
      and ent: "\<forall>k v. entry nt k v \<longleftrightarrow> entry t k v" and cnt: "count nt = count t"
      using rehash_spec [OF it z, of e] by blast
    have kept: "get H nt (keys t i) = Some (Inr (Some (values_t t i)))"
      if "i < capacity t" "COMT_TAB_IS_OCCUPIED (meta t i)" for i
    proof -
      have "entry t (keys t i) (values_t t i)"
        using that by (auto simp: entry_def holds_def)
      then show ?thesis using ent entry_get_has(1) [OF invn] by simp
    qed
    have cnt': "count nt = card (fst ` set kvs)"
      using cnt count_keyset [OF it] ks by simp
    have "count nt \<le> capacity t" using cnt count_le_capacity [OF it] by simp
    then have lp: "load_percentage nt < 70" and cn: "0 < capacity nt"
      using growth_gate [OF _ cap] by simp_all
    then have lp': "10 * count nt < 7 * capacity nt" by (simp add: load_below_iff)
    have pre: "\<exists>nt'. reinsert (Suc e) H t [0..<n] ?new = Some (Inr nt') \<and> load_percentage nt' < 70"
      if "n < capacity t" for n
    proof -
      have "\<exists>nt'. reinsert (Suc e) H t [0..<n] ?new = Some (Inr nt') \<and>
        table_inv H nt' \<and> capacity nt' = ?G \<and>
        (\<forall>k v. entry nt' k v \<longleftrightarrow> (\<exists>i<n. holds t k i \<and> values_t t i = v))"
      proof -
        have "n \<le> capacity t" using that by simp
        then show ?thesis using reinsert_prefix [OF it z, of n e] that by blast
      qed
      then obtain nt' where r': "reinsert (Suc e) H t [0..<n] ?new = Some (Inr nt')"
        and i': "table_inv H nt'" and c': "capacity nt' = ?G"
        and e': "\<forall>k v. entry nt' k v \<longleftrightarrow> (\<exists>i<n. holds t k i \<and> values_t t i = v)"
        by blast
      have "count nt' \<le> capacity t"
        using count_bound_prefix [OF i' e'] that by simp
      then show ?thesis using growth_gate(1) [OF _ c'] r' by blast
    qed
    have "put (Suc (Suc e)) H t k v = put_loop nt k v (unat (H k) mod capacity nt)"
      using c True re by simp
    then show ?thesis
      using True re cap kept cnt' lp lp' pre unfolding G by auto
  qed
  show ?thesis using run gate branch unfolding G by blast
qed

text \<open>
  The theorem on the table of capacity 1 that holds key 5: its load is 100, so the
  gate is open and the rehash branch of the statement applies.
\<close>

lemma rehash_at_gate_example:
  "(case put_all (Suc (Suc 0)) Hash_size_t (Table_alloc zero_allocator 1) [(5, 50)] of
      Some (Inr t) \<Rightarrow> load_percentage t = 100 \<and> capacity t = 1
    | _ \<Rightarrow> False) \<and>
   (\<exists>t. put_all (Suc (Suc 0)) Hash_size_t (Table_alloc zero_allocator 1) [(5, 50)] = Some (Inr t) \<and>
      (70 \<le> load_percentage t \<longleftrightarrow> 7 * capacity t \<le> 10 * count t) \<and>
      (if 70 \<le> load_percentage t then
         \<exists>nt. reinsert (Suc 0) Hash_size_t t [0..<capacity t]
                (Table_alloc (allocator t) ((capacity t + 1) * 3)) = Some (Inr nt) \<and>
              capacity nt = (capacity t + 1) * 3 \<and>
              (\<forall>i<capacity t. COMT_TAB_IS_OCCUPIED (meta t i) \<longrightarrow>
                 get Hash_size_t nt (keys t i) = Some (Inr (Some (values_t t i)))) \<and>
              count nt = card (fst ` set [(5::u64, 50::u64)]) \<and>
              10 * count nt < 7 * capacity nt \<and> load_percentage nt < 70 \<and>
              (\<forall>n<capacity t. \<exists>nt'.
                 reinsert (Suc 0) Hash_size_t t [0..<n]
                   (Table_alloc (allocator t) ((capacity t + 1) * 3)) = Some (Inr nt') \<and>
                 load_percentage nt' < 70) \<and>
              put (Suc (Suc 0)) Hash_size_t t 6 60 =
                put_loop nt 6 60 (unat (Hash_size_t 6) mod capacity nt)
       else put (Suc (Suc 0)) Hash_size_t t 6 60 =
              put_loop t 6 60 (unat (Hash_size_t 6) mod capacity t)))"
proof -
  have "case put_all (Suc (Suc 0)) Hash_size_t (Table_alloc zero_allocator 1) [(5, 50)] of
      Some (Inr t) \<Rightarrow> load_percentage t = 100 \<and> capacity t = 1
    | _ \<Rightarrow> False"
    by code_simp
  then show ?thesis
    using rehash_at_gate [OF zeroing_zero_allocator, of 1 0 Hash_size_t "[(5, 50)]" 0 6 60]
    by simp
qed

text \<open>
  Claim C2 says that right after a rehash \<open>count\<close> is the number of distinct keys ever
  inserted. The new store comes from \<open>Table::alloc\<close>, which does not clear the occupancy
  bytes. Here the table of capacity 4 starts in zero-filled memory and holds keys 0, 1
  and 2 (load 75, gate open); its 15-slot store arrives with slot 1 marked occupied with
  key 1. The reinsertion of key 1 finds that slot and updates it without counting, so the
  rehashed table has \<open>count = 2\<close> for three distinct keys.
\<close>

theorem rehash_in_reused_memory:
  "(case put_all (Suc (Suc 0)) Hash_size_t (Table_alloc (stale_allocator 15 1 1) 4)
           [(0, 1), (1, 10), (2, 20)] of
      Some (Inr t) \<Rightarrow>
        load_percentage t = 75 \<and> count t = 3 \<and>
        (case reinsert (Suc 0) Hash_size_t t [0..<capacity t]
                (Table_alloc (allocator t) (COMT_TABLE_GROWTH_FACTOR (capacity t))) of
           Some (Inr nt) \<Rightarrow> capacity nt = 15 \<and> count nt = 2
         | _ \<Rightarrow> False)
    | _ \<Rightarrow> False) \<and>
   card (fst ` set [(0 :: u64, 1 :: u64), (1, 10), (2, 20)]) = 3"
  by code_simp

text \<open>
  Claim C5 says that the 33 inserts into a table of capacity 47 rehash exactly once.
  The gate is tested on entry, before the insert: the 33rd call sees \<open>count = 32\<close> and
  load \<open>3200 div 47 = 68\<close>. No call rehashes.
\<close>

theorem scenario_rehash_count_counterexample:
  "rehashes (Suc (Suc 0)) Hash_size_t (Table_alloc zero_allocator 47) scenario_puts \<noteq> 1"
  by code_simp

text \<open>
  Claim C5, amended. After the 33 inserts \<open>get(17)\<close> returns true with value 34 and
  \<open>count\<close> is 33; no rehash happened, the capacity is still 47; the load has reached 70,
  so the gate opens on the 34th call.
\<close>

theorem scenario_47:
  "(case put_all (Suc (Suc 0)) Hash_size_t (Table_alloc zero_allocator 47) scenario_puts of
      Some (Inr t) \<Rightarrow>
        get Hash_size_t t 17 = Some (Inr (Some 34)) \<and> count t = 33 \<and>
        capacity t = 47 \<and> load_percentage t = 70
    | _ \<Rightarrow> False) \<and>
   rehashes (Suc (Suc 0)) Hash_size_t (Table_alloc zero_allocator 47) scenario_puts = 0"
  by code_simp

text \<open>
  Claim C10 asks that a table be empty right after \<open>Table::alloc\<close>, whatever the
  blocks hold. \<open>Table::alloc\<close> sets \<open>count\<close> to 0 and leaves the occupancy bytes as
  the allocator handed them out. In a block that an earlier table used, with bit 0 set in
  a byte and key 5 beside it, \<open>has(5)\<close> and \<open>get(5)\<close> return true on the new table.
\<close>

theorem alloc_in_used_memory:
  "count (Table_alloc dirty_allocator 47) = 0 \<and>
   has Hash_size_t (Table_alloc dirty_allocator 47) 5 = Some (Inr True) \<and>
   get Hash_size_t (Table_alloc dirty_allocator 47) 5 = Some (Inr (Some 50))"
  by code_simp

text \<open>In zero-filled blocks the new table is empty.\<close>

lemma alloc_in_zeroed_memory:
  assumes "zeroing a" and "0 < c"
  shows "count (Table_alloc a c) = 0 \<and> has H (Table_alloc a c) k = Some (Inr False) \<and>
         get H (Table_alloc a c) k = Some (Inr None)"
proof -
  have "0 < capacity (Table_alloc a c)" using assms(2) by (simp add: Table_alloc_def)
  moreover have "\<forall>i. \<not> holds (Table_alloc a c) k i"
    using holds_Table_alloc [OF assms(1)] by simp
  ultimately show ?thesis
    using has_absent [of "Table_alloc a c" k H] get_absent [of "Table_alloc a c" k H]
    by (simp add: Table_alloc_def)
qed

text \<open>
  Claim C3. \<open>Set::put\<close> and \<open>Set::has\<close> start probing at the hash value itself, where
  \<open>Table::put\<close>, \<open>get\<close> and \<open>has\<close> start at the hash modulo the capacity. So for an
  element whose hash is at least the capacity (and a set below the load gate, whose
  \<open>put\<close> probes the store it has), the first access of the set's \<open>put\<close> and \<open>has\<close> is
  outside the arrays, while no access of the map's operations ever is.
\<close>

theorem set_probe_start_unreduced:
  assumes "0 < capacity_s s" and "Set_load_percentage s < 70"
    and "capacity_s s \<le> unat (H e)" and "0 < capacity t"
  shows "Set_put (Suc d) H s e = Set_put_loop s e (unat (H e)) \<and>
         Set_put (Suc d) H s e = Some (Inl OutOfBounds) \<and>
         Set_has H s e = Some (Inl OutOfBounds) \<and>
         get H' t k = get_loop t k (unat (H' k) mod capacity t) (unat (H' k) mod capacity t) \<and>
         unat (H' k) mod capacity t < capacity t \<and>
         put d' H' t k v \<noteq> Some (Inl OutOfBounds) \<and>
         get H' t k \<noteq> Some (Inl OutOfBounds) \<and>
         has H' t k \<noteq> Some (Inl OutOfBounds)"
proof -
  let ?h = "unat (H' k) mod capacity t"
  have h: "?h < capacity t" using assms(4) by simp
  have g: "get H' t k = get_loop t k ?h ?h" and hs: "has H' t k = has_loop t k ?h ?h"
    using assms(4) by (simp_all add: get_def has_def)
  have "get_loop t k ?h ?h \<noteq> Some (Inl OutOfBounds)"
    using get_loop_in_bounds [of t k ?h ?h "Inl OutOfBounds"] h by blast
  moreover have "has_loop t k ?h ?h \<noteq> Some (Inl OutOfBounds)"
    using has_loop_in_bounds [of t k ?h ?h "Inl OutOfBounds"] h by blast
  moreover have "put d' H' t k v \<noteq> Some (Inl OutOfBounds)"
    using put_in_bounds_aux(1) [of d' H' t k v] by simp
  moreover have "Set_put (Suc d) H s e = Set_put_loop s e (unat (H e))"
    using assms(1,2) by simp
  ultimately show ?thesis
    using g hs h assms(1,2,3) set_put_out_of_bounds [of s H e d] set_has_out_of_bounds [of s H e]
    by simp
qed

text \<open>
  A set and a map of \<open>size_t\<close> with the default capacity 47, in zero-filled memory, and
  the element 100, whose hash is 100.
\<close>

theorem set_probe_start_unreduced_witness:
  "Set_put (Suc 0) Hash_size_t (Set_alloc zero_allocator_s 47) 100 = Some (Inl OutOfBounds) \<and>
   Set_has Hash_size_t (Set_alloc zero_allocator_s 47) 100 = Some (Inl OutOfBounds) \<and>
   unat (Hash_size_t 100) mod capacity (Table_alloc zero_allocator 47) = 6 \<and>
   put (Suc 0) Hash_size_t (Table_alloc zero_allocator 47) 100 1 \<noteq> Some (Inl OutOfBounds) \<and>
   get Hash_size_t (Table_alloc zero_allocator 47) 100 \<noteq> Some (Inl OutOfBounds) \<and>
   has Hash_size_t (Table_alloc zero_allocator 47) 100 \<noteq> Some (Inl OutOfBounds)"
proof -
  have hyps: "0 < capacity_s (Set_alloc zero_allocator_s 47)"
    "Set_load_percentage (Set_alloc zero_allocator_s 47) < 70"
    "capacity_s (Set_alloc zero_allocator_s 47) \<le> unat (Hash_size_t 100)"
    "0 < capacity (Table_alloc zero_allocator 47)"
    by (simp_all add: Set_alloc_def Set_load_percentage_def Table_alloc_def Hash_size_t_def)
  have six: "unat (Hash_size_t 100) mod capacity (Table_alloc zero_allocator 47) = 6"
    by (simp add: Table_alloc_def Hash_size_t_def)
  show ?thesis
    using six set_probe_start_unreduced [of "Set_alloc zero_allocator_s 47" Hash_size_t 100
        "Table_alloc zero_allocator 47" 0 Hash_size_t 100 "Suc 0" 1, OF hyps]
    by blast
qed

section \<open>Claims about the allocators\<close>

text \<open>
  Claim C4 says that \<open>alloc_region\<close> returns in every arena state and leaves the
  \<open>head\<close> chain alone. When the first page of the metadata pool has no room for a
  descriptor, the loop never advances \<open>current_region\<close>: it executes
  \<open>head = head->next\<close> on the arena's own \<open>head\<close> until that is null and then
  dereferences it. On \<open>arena_pool_full\<close> the call ends in that null dereference
  (\<open>alloc_region_loop_no_room\<close> shows it for every arena whose \<open>head\<close> chain is finite).
\<close>

theorem alloc_region_pool_full:
  "alloc_region arena_pool_full 4096 = Some (Inl NullDeref)"
  by code_simp

text \<open>
  Claim C6 says that \<open>raw_alloc\<close>, when the request fits in no region, allocates one
  new region, prepends it to \<open>head\<close> and serves the request from it. The new region
  comes from \<open>alloc_region\<close>, whose scan of the metadata pool never advances
  \<open>current_region\<close>: once the first pool page is used up (after 128 descriptors) it
  walks the arena's \<open>head\<close> to null and dereferences it. On \<open>arena_pool_full\<close>, whose one
  region of 4096 bytes cannot hold 5000 bytes, \<open>raw_alloc(5000)\<close> ends in that null
  dereference and returns no pointer (\<open>raw_alloc_no_room\<close> shows it for every finite
  chain). With room in the pool page the call does what the claim says
  (\<open>raw_alloc_first_fit\<close>, \<open>raw_alloc_scenario\<close>).
\<close>

theorem raw_alloc_pool_full:
  "ArenaAllocator_raw_alloc arena_pool_full 5000 = Some (Inl NullDeref)"
  by code_simp

text \<open>
  Claim C7. With a buffer in place and the cursor inside it: when the aligned request
  is no larger than the buffer and the cursor advanced by it would pass the end of the
  buffer, \<open>raw_alloc\<close> returns the start of the buffer and sets the cursor to the aligned
  request. (The cursor is inside the buffer after every \<open>raw_alloc\<close>:
  \<open>raw_alloc_keeps_cursor_inside\<close>.)
\<close>

theorem bump_wraps:
  assumes "buffer a \<noteq> 0" and "buffer_off a \<le> buffer_size a"
    and "align_to sz sizeof_ptr \<le> buffer_size a"
    and "unat (buffer_size a) < unat (buffer_off a) + unat (align_to sz sizeof_ptr)"
  shows "FixedBufferAllocator_raw_alloc a s sz =
           (buffer a, a\<lparr> buffer_off := align_to sz sizeof_ptr \<rparr>, s)"
proof -
  have "unat (buffer_size a - buffer_off a) = unat (buffer_size a) - unat (buffer_off a)"
    using assms(2) by (simp add: unat_sub)
  moreover have "unat (buffer_off a) \<le> unat (buffer_size a)"
    using assms(2) by (simp add: word_le_nat_alt)
  ultimately have "unat (buffer_size a - buffer_off a) < unat (align_to sz sizeof_ptr)"
    using assms(4) by arith
  then have "buffer_size a - buffer_off a < align_to sz sizeof_ptr"
    by (simp add: word_less_nat_alt)
  moreover have "\<not> align_to sz sizeof_ptr > buffer_size a"
    using assms(3) by simp
  ultimately show ?thesis
    using assms(1) by (simp add: FixedBufferAllocator_raw_alloc_def Let_def)
qed

text \<open>A buffer of 20480 bytes with the cursor at 20000, and a request of 1000 bytes.\<close>

theorem bump_wraps_witness:
  "FixedBufferAllocator_raw_alloc (fba_example\<lparr> buffer_off := 20000 \<rparr>) os0 1000 =
     (0x10000, fba_example\<lparr> buffer_off := 1000 \<rparr>, os0)"
proof -
  have al: "align_to 1000 sizeof_ptr = 1000"
    by (simp add: align_to_def sizeof_ptr_def)
  show ?thesis
    using bump_wraps [of "fba_example\<lparr> buffer_off := 20000 \<rparr>" 1000 os0]
    by (simp add: al fba_example_def)
qed

text \<open>
  Claim C8 says that \<open>raw_dealloc\<close> rewinds the cursor exactly for the pointer of the
  most recent allocation. The source compares the pointer with \<open>buffer + buffer_off\<close>,
  the address after the most recent allocation. After \<open>raw_alloc(16)\<close> returned
  \<open>0x10000\<close>, \<open>raw_dealloc(0x10000, 16)\<close> changes nothing, and
  \<open>raw_dealloc(0x10010, 16)\<close>, on an address never handed out, rewinds
  (\<open>dealloc_of_last_alloc\<close>: no allocation of a non-zero size can be released).
\<close>

theorem dealloc_most_recent:
  "FixedBufferAllocator_raw_alloc fba_example os0 16 =
     (0x10000, fba_example\<lparr> buffer_off := 16 \<rparr>, os0) \<and>
   FixedBufferAllocator_raw_dealloc (fba_example\<lparr> buffer_off := 16 \<rparr>) 0x10000 16 =
     fba_example\<lparr> buffer_off := 16 \<rparr> \<and>
   FixedBufferAllocator_raw_dealloc (fba_example\<lparr> buffer_off := 16 \<rparr>) 0x10010 16 =
     fba_example\<lparr> buffer_off := 0 \<rparr>"
  by (simp add: FixedBufferAllocator_raw_alloc_def FixedBufferAllocator_raw_dealloc_def
      fba_example_def align_to_def sizeof_ptr_def Let_def)

text \<open>
  Claim C9 says that \<open>free()\<close> releases every region of the \<open>head\<close> chain with its own
  data pointer and size. The loop body names \<open>head\<close>, not \<open>r\<close>: on \<open>arena_two\<close> it
  releases the first region (data \<open>0x40000\<close>, 8192 bytes) twice and the second region
  (data \<open>0x30000\<close>, 4096 bytes) never (\<open>free_loop_chain\<close>: one release of the first
  region per region of the chain). No pool page is released.
\<close>

theorem free_two_regions:
  "(case ArenaAllocator_free arena_two of
      Some (Inr a) \<Rightarrow> unmapped (os a) = [(0x40000, 8192), (0x40000, 8192)]
    | _ \<Rightarrow> False)"
  by code_simp



end
